theory Spec2Isabelle
  imports Main
begin

section \<open>The event catalogue and the listener values\<close>

text \<open>The enum \<open>EventBusEnum\<close> of the source, one constructor per member.\<close>

datatype EventBusEnum =
    LOG | LOG_ERROR | LOG_INFO | LOG_WARNING | LOG_DEBUG | LOG_CRITICAL
  | LOG_EMERGENCY | LOG_NOTICE | LOG_TRACE | LOG_SILENT
  | SERVER_STARTED | SERVER_STOPPED | SERVER_SHUTDOWN | SERVER_ERROR
  | SERVER_WARNING | SERVER_CRITICAL | SERVER_DEBUG | SERVER_THROW
  | USER_CREATED | USER_UPDATED | USER_DELETED
  | CAPABILITY_CREATED | CAPABILITY_UPDATED | CAPABILITY_DELETED
  | CAPABILITY_ASSIGNED | CAPABILITY_UNASSIGNED | CAPABILITY_OPENED
  | CAPABILITY_CLOSED
  | ROLE_CREATED | ROLE_UPDATED | ROLE_DELETED
  | PERMISSION_CREATED | PERMISSION_UPDATED | PERMISSION_DELETED
  | ROUTE_OPENED | ROUTE_CLOSED

text \<open>
  A listener (\<open>IEventCallable\<close>) is a function value, compared by identity.
  \<open>Fn n\<close> is the n-th function of the calling application. \<open>OnceFn i e c\<close> is the
  closure that \<open>EventBus.once\<close> builds: \<open>i\<close> is its identity (the number of closures
  built before it), \<open>e\<close> and \<open>c\<close> are the captured \<open>event\<close> and \<open>callable\<close>.
\<close>

datatype IEventCallable = Fn nat | OnceFn nat EventBusEnum IEventCallable

text \<open>
  What the body of an application function does, as far as the bus can see: a sequence
  of calls of the bus, and possibly a \<open>throw\<close>. The payload type \<open>'p\<close> stands for
  \<open>IEventPayload\<close>, which the bus only passes on.
\<close>

datatype 'p action =
    Subscribe EventBusEnum IEventCallable
  | Unsubscribe EventBusEnum IEventCallable
  | Once EventBusEnum IEventCallable
  | Dispatch EventBusEnum 'p
  | Clear EventBusEnum
  | ClearAll
  | Throw

type_synonym 'p bodies = "nat \<Rightarrow> 'p \<Rightarrow> 'p action list"

section \<open>The JavaScript \<open>Set\<close> of listeners\<close>

text \<open>
  A \<open>Set\<close> is its list of entries in insertion order. \<open>delete\<close> and \<open>clear\<close> replace an
  entry by the empty marker (\<open>None\<close>) and \<open>add\<close> appends, so that the position of an
  entry never changes: this is what a running \<open>forEach\<close> observes.
\<close>

type_synonym IEventSet = "IEventCallable option list"

definition set_add :: "IEventSet \<Rightarrow> IEventCallable \<Rightarrow> IEventSet" where
  "set_add d c = (if Some c \<in> set d then d else d @ [Some c])"

definition set_delete :: "IEventSet \<Rightarrow> IEventCallable \<Rightarrow> IEventSet" where
  "set_delete d c = map (\<lambda>x. if x = Some c then None else x) d"

definition set_clear :: "IEventSet \<Rightarrow> IEventSet" where
  "set_clear d = map (\<lambda>x. None) d"

fun set_values :: "IEventSet \<Rightarrow> IEventCallable list" where
  "set_values [] = []"
| "set_values (None # d) = set_values d"
| "set_values (Some c # d) = c # set_values d"

definition set_size :: "IEventSet \<Rightarrow> nat" where
  "set_size d = length (set_values d)"

section \<open>The registry\<close>

text \<open>
  \<open>stack\<close> is the static \<open>Map\<close> of the class, in insertion order; its values are
  references into \<open>sets\<close>, the \<open>Set\<close> objects created so far. \<open>closures\<close> counts
  the closures built by \<open>once\<close>. \<open>calls\<close> records every invocation of a listener
  with the payload it received, oldest first.
\<close>

record 'p EventBus =
  stack :: "(EventBusEnum \<times> nat) list"
  sets :: "IEventSet list"
  closures :: nat
  calls :: "(IEventCallable \<times> 'p) list"

definition init :: "'p EventBus" where
  "init = \<lparr>stack = [], sets = [], closures = 0, calls = []\<rparr>"

definition set_data :: "'p EventBus \<Rightarrow> nat \<Rightarrow> IEventSet" where
  "set_data s r = (if r < length (sets s) then sets s ! r else [])"

definition set_apply :: "nat \<Rightarrow> (IEventSet \<Rightarrow> IEventSet) \<Rightarrow> 'p EventBus \<Rightarrow> 'p EventBus" where
  "set_apply r f s = s\<lparr>sets := (sets s)[r := f (set_data s r)]\<rparr>"

definition subscribe :: "EventBusEnum \<Rightarrow> IEventCallable \<Rightarrow> 'p EventBus \<Rightarrow> 'p EventBus" where
  "subscribe event callable s =
     (let s1 = (if map_of (stack s) event = None
                then s\<lparr>stack := stack s @ [(event, length (sets s))], sets := sets s @ [[]]\<rparr>
                else s)
      in case map_of (stack s1) event of
           None \<Rightarrow> s1
         | Some r \<Rightarrow> set_apply r (\<lambda>d. set_add d callable) s1)"

definition unsubscribe :: "EventBusEnum \<Rightarrow> IEventCallable \<Rightarrow> 'p EventBus \<Rightarrow> 'p EventBus" where
  "unsubscribe event callable s =
     (case map_of (stack s) event of
        None \<Rightarrow> s
      | Some r \<Rightarrow> set_apply r (\<lambda>d. set_delete d callable) s)"

definition once :: "EventBusEnum \<Rightarrow> IEventCallable \<Rightarrow> 'p EventBus \<Rightarrow> 'p EventBus" where
  "once event callable s =
     subscribe event (OnceFn (closures s) event callable) (s\<lparr>closures := Suc (closures s)\<rparr>)"

definition batch :: "EventBusEnum \<Rightarrow> IEventCallable list \<Rightarrow> 'p EventBus \<Rightarrow> 'p EventBus" where
  "batch event callable s = fold (\<lambda>c. subscribe event c) callable s"

definition batchOnce :: "EventBusEnum \<Rightarrow> IEventCallable list \<Rightarrow> 'p EventBus \<Rightarrow> 'p EventBus" where
  "batchOnce event callable s = fold (\<lambda>c. once event c) callable s"

definition multiple :: "EventBusEnum list \<Rightarrow> IEventCallable \<Rightarrow> 'p EventBus \<Rightarrow> 'p EventBus" where
  "multiple events callable s = fold (\<lambda>e. subscribe e callable) events s"

definition multipleOnce :: "EventBusEnum list \<Rightarrow> IEventCallable \<Rightarrow> 'p EventBus \<Rightarrow> 'p EventBus" where
  "multipleOnce events callable s = fold (\<lambda>e. once e callable) events s"

definition clear :: "EventBusEnum \<Rightarrow> 'p EventBus \<Rightarrow> 'p EventBus" where
  "clear event s =
     (case map_of (stack s) event of
        None \<Rightarrow> s
      | Some r \<Rightarrow> set_apply r set_clear s)"

definition clearAll :: "'p EventBus \<Rightarrow> 'p EventBus" where
  "clearAll s = s\<lparr>stack := []\<rparr>"

definition get :: "EventBusEnum \<Rightarrow> 'p EventBus \<Rightarrow> IEventCallable list option" where
  "get event s = map_option (\<lambda>r. set_values (set_data s r)) (map_of (stack s) event)"

definition events :: "'p EventBus \<Rightarrow> EventBusEnum list" where
  "events s = map fst (stack s)"

definition listeners :: "'p EventBus \<Rightarrow> IEventCallable list list" where
  "listeners s = map (\<lambda>(e, r). set_values (set_data s r)) (stack s)"

definition count :: "'p EventBus \<Rightarrow> nat" where
  "count s = length (stack s)"

definition empty_bus :: "'p EventBus \<Rightarrow> bool" where
  "empty_bus s = (count s = 0)"

section \<open>Dispatch and the invocation of listeners\<close>

text \<open>
  A call returns or throws, and leaves a registry in both cases. \<open>dispatch\<close> is
  \<open>this.stack.get(event)?.forEach(callable => callable(payload))\<close>: it looks the set
  up, and \<open>forEach\<close> walks the entries of that set by index, as they are at that
  moment, so that a deleted entry is skipped and an entry appended during the walk is
  visited. \<open>invoke\<close> calls one listener. A function of the application runs its body
  (\<open>run\<close>). A closure of \<open>once\<close> calls its callable and then unsubscribes itself; when
  the callable throws, the throw leaves the closure before the \<open>unsubscribe\<close>. A throw
  ends the walk and leaves \<open>dispatch\<close>.

  The first argument bounds the depth of the nested calls and the number of steps of
  each loop. \<open>None\<close> says that the bound was reached: a call that never returns has the
  value \<open>None\<close> for every bound.
\<close>

datatype 'p outcome = Returned "'p EventBus" | Thrown "'p EventBus"

definition invoked :: "IEventCallable \<Rightarrow> 'p \<Rightarrow> 'p EventBus \<Rightarrow> 'p EventBus" where
  "invoked c payload s = s\<lparr>calls := calls s @ [(c, payload)]\<rparr>"

function invoke :: "nat \<Rightarrow> 'p bodies \<Rightarrow> IEventCallable \<Rightarrow> 'p \<Rightarrow> 'p EventBus \<Rightarrow> 'p outcome option"
and run :: "nat \<Rightarrow> 'p bodies \<Rightarrow> 'p action list \<Rightarrow> 'p EventBus \<Rightarrow> 'p outcome option"
and dispatch :: "nat \<Rightarrow> 'p bodies \<Rightarrow> EventBusEnum \<Rightarrow> 'p \<Rightarrow> 'p EventBus \<Rightarrow> 'p outcome option"
and forEach :: "nat \<Rightarrow> 'p bodies \<Rightarrow> nat \<Rightarrow> nat \<Rightarrow> 'p \<Rightarrow> 'p EventBus \<Rightarrow> 'p outcome option"
where
  "invoke 0 B c payload s = None"
| "invoke (Suc n) B (Fn f) payload s = run n B (B f payload) (invoked (Fn f) payload s)"
| "invoke (Suc n) B (OnceFn i event callable) payload s =
     (case invoke n B callable payload (invoked (OnceFn i event callable) payload s) of
        None \<Rightarrow> None
      | Some (Thrown s') \<Rightarrow> Some (Thrown s')
      | Some (Returned s') \<Rightarrow> Some (Returned (unsubscribe event (OnceFn i event callable) s')))"
| "run n B [] s = Some (Returned s)"
| "run 0 B (a # as) s = None"
| "run (Suc n) B (Subscribe e c # as) s = run n B as (subscribe e c s)"
| "run (Suc n) B (Unsubscribe e c # as) s = run n B as (unsubscribe e c s)"
| "run (Suc n) B (Once e c # as) s = run n B as (once e c s)"
| "run (Suc n) B (Dispatch e p # as) s =
     (case dispatch n B e p s of
        None \<Rightarrow> None
      | Some (Thrown s') \<Rightarrow> Some (Thrown s')
      | Some (Returned s') \<Rightarrow> run n B as s')"
| "run (Suc n) B (Clear e # as) s = run n B as (clear e s)"
| "run (Suc n) B (ClearAll # as) s = run n B as (clearAll s)"
| "run (Suc n) B (Throw # as) s = Some (Thrown s)"
| "dispatch n B event payload s =
     (case map_of (stack s) event of
        None \<Rightarrow> Some (Returned s)
      | Some r \<Rightarrow> forEach n B r 0 payload s)"
| "forEach 0 B r index payload s = None"
| "forEach (Suc n) B r index payload s =
     (if index < length (set_data s r)
      then (case set_data s r ! index of
              None \<Rightarrow> forEach n B r (Suc index) payload s
            | Some callable \<Rightarrow>
                (case invoke n B callable payload s of
                   None \<Rightarrow> None
                 | Some (Thrown s') \<Rightarrow> Some (Thrown s')
                 | Some (Returned s') \<Rightarrow> forEach n B r (Suc index) payload s'))
      else Some (Returned s))"
  by pat_completeness auto
termination
  by (relation "measure (\<lambda>x. case x of
        Inl (Inl (n, _)) \<Rightarrow> 2 * n
      | Inl (Inr (n, _)) \<Rightarrow> 2 * n
      | Inr (Inl (n, _)) \<Rightarrow> 2 * n + 1
      | Inr (Inr (n, _)) \<Rightarrow> 2 * n)") auto

section \<open>Notions used to state the properties\<close>

text \<open>
  The entries of the \<open>Set\<close> stored under a kind (none when the kind has no entry in
  the \<open>Map\<close>), and the listeners among them, in insertion order.
\<close>

definition entries :: "EventBusEnum \<Rightarrow> 'p EventBus \<Rightarrow> IEventSet" where
  "entries event s = (case map_of (stack s) event of None \<Rightarrow> [] | Some r \<Rightarrow> set_data s r)"

definition members :: "EventBusEnum \<Rightarrow> 'p EventBus \<Rightarrow> IEventCallable list" where
  "members event s = set_values (entries event s)"

text \<open>
  The bus calls that return at once, without invoking a listener: everything but
  \<open>dispatch\<close> and \<open>throw\<close>. \<open>effect\<close> is what such a call does to the registry
  (lemma \<open>run_direct\<close>; it is not used for the other two actions).
\<close>

fun direct :: "'p action \<Rightarrow> bool" where
  "direct (Dispatch e p) = False"
| "direct Throw = False"
| "direct a = True"

fun effect :: "'p action \<Rightarrow> 'p EventBus \<Rightarrow> 'p EventBus" where
  "effect (Subscribe e c) s = subscribe e c s"
| "effect (Unsubscribe e c) s = unsubscribe e c s"
| "effect (Once e c) s = once e c s"
| "effect (Clear e) s = clear e s"
| "effect ClearAll s = clearAll s"
| "effect (Dispatch e p) s = s"
| "effect Throw s = s"

text \<open>
  \<open>apart K a\<close>: the action \<open>a\<close> leaves the listener set of the kind \<open>K\<close> alone. It
  is a \<open>subscribe\<close>, \<open>unsubscribe\<close>, \<open>once\<close> or \<open>clear\<close> of another kind.
\<close>

fun apart :: "EventBusEnum \<Rightarrow> 'p action \<Rightarrow> bool" where
  "apart K (Subscribe e c) = (e \<noteq> K)"
| "apart K (Unsubscribe e c) = (e \<noteq> K)"
| "apart K (Once e c) = (e \<noteq> K)"
| "apart K (Clear e) = (e \<noteq> K)"
| "apart K ClearAll = False"
| "apart K (Dispatch e p) = False"
| "apart K Throw = False"

text \<open>The body of the application function that a listener runs in the end.\<close>

fun body :: "'p bodies \<Rightarrow> 'p \<Rightarrow> IEventCallable \<Rightarrow> 'p action list" where
  "body B p (Fn f) = B f p"
| "body B p (OnceFn i e c) = body B p c"

text \<open>
  A listener is calm for the kind \<open>K\<close> and a payload when its invocation returns
  without throwing and leaves the listener set of \<open>K\<close> alone: an application function
  whose body is apart from \<open>K\<close>, or the closure of \<open>once\<close> around such a function
  (the closure still unsubscribes itself).
\<close>

fun calm :: "'p bodies \<Rightarrow> EventBusEnum \<Rightarrow> 'p \<Rightarrow> IEventCallable \<Rightarrow> bool" where
  "calm B K p (Fn f) = list_all (apart K) (B f p)"
| "calm B K p (OnceFn i e (Fn f)) = list_all (apart K) (B f p)"
| "calm B K p (OnceFn i e (OnceFn j e' c)) = False"

text \<open>
  The invocations that one call of a listener adds to \<open>calls\<close> when nothing throws:
  the listener itself and, for a closure of \<open>once\<close>, the function it wraps.
  \<open>callee c\<close> is the listener that \<open>c\<close> calls directly, if \<open>c\<close> is such a closure.
\<close>

fun trace :: "'p \<Rightarrow> IEventCallable \<Rightarrow> (IEventCallable \<times> 'p) list" where
  "trace p (Fn f) = [(Fn f, p)]"
| "trace p (OnceFn i e c) = (OnceFn i e c, p) # trace p c"

fun callee :: "IEventCallable \<Rightarrow> IEventCallable list" where
  "callee (Fn f) = []"
| "callee (OnceFn i e c) = [c]"

text \<open>The state that the call of a calm listener leaves (lemma \<open>invoke_calm\<close>).\<close>

fun settle :: "'p bodies \<Rightarrow> 'p \<Rightarrow> IEventCallable \<Rightarrow> 'p EventBus \<Rightarrow> 'p EventBus" where
  "settle B p (Fn f) s = fold effect (B f p) (invoked (Fn f) p s)"
| "settle B p (OnceFn i e c) s =
     unsubscribe e (OnceFn i e c) (settle B p c (invoked (OnceFn i e c) p s))"

text \<open>
  The registry that a call leaves, whether it returned or threw, and the relation between
  a registry and the outcome of a call that started there: the log of the outcome begins
  with the log of the registry.
\<close>

fun state_of :: "'p outcome \<Rightarrow> 'p EventBus" where
  "state_of (Returned s) = s"
| "state_of (Thrown s) = s"

definition extends :: "'p EventBus \<Rightarrow> 'p outcome \<Rightarrow> bool" where
  "extends s out \<longleftrightarrow> (\<exists>xs. calls (state_of out) = calls s @ xs)"

text \<open>
  \<open>once_for e c\<close>: the listener \<open>c\<close> is a closure that \<open>once\<close> built for the kind
  \<open>e\<close>. \<open>plain c\<close>: it is a function of the application. \<open>built_before n c\<close>: if it
  is a closure of \<open>once\<close>, it is one of the first \<open>n\<close> that were built.
\<close>

fun once_for :: "EventBusEnum \<Rightarrow> IEventCallable \<Rightarrow> bool" where
  "once_for e (Fn f) = False"
| "once_for e (OnceFn i e' c) = (e' = e)"

fun plain :: "IEventCallable \<Rightarrow> bool" where
  "plain (Fn f) = True"
| "plain (OnceFn i e c) = False"

fun built_before :: "nat \<Rightarrow> IEventCallable \<Rightarrow> bool" where
  "built_before n (Fn f) = True"
| "built_before n (OnceFn i e c) = (i < n)"

text \<open>
  The states that the JavaScript objects can be in: the keys of the \<open>Map\<close> are distinct,
  every key has a \<open>Set\<close> object of its own, which exists, and a \<open>Set\<close> holds a value
  at most once.
\<close>

definition wf_bus :: "'p EventBus \<Rightarrow> bool" where
  "wf_bus s \<longleftrightarrow>
     distinct (map fst (stack s)) \<and> distinct (map snd (stack s)) \<and>
     list_all (\<lambda>(e, r). r < length (sets s)) (stack s) \<and>
     list_all (\<lambda>d. distinct (set_values d)) (sets s)"

text \<open>
  Data of the examples. \<open>payload7\<close> is the record \<open>{id: 7}\<close>. The functions of \<open>B0\<close>
  all have an empty body and those of \<open>B_throw\<close> all throw at once. In
  \<open>B_first_throws\<close> only function 0 throws. In \<open>B_unsub\<close> function 0 unsubscribes
  function 1 from \<open>user:created\<close> and function 4 subscribes function 5 to \<open>log\<close>.
  In \<open>B_resub\<close> function 0 subscribes itself to \<open>server:started\<close>. In \<open>B_sub\<close>
  function 0 subscribes function 3 to \<open>user:created\<close>. In \<open>B_live\<close> function 0
  subscribes function 2 to \<open>user:created\<close> and function 1 unsubscribes it.
\<close>

definition payload7 :: "(string \<times> int) list" where
  "payload7 = [(''id'', 7)]"

definition B0 :: "(string \<times> int) list bodies" where
  "B0 f p = []"

definition B_throw :: "(string \<times> int) list bodies" where
  "B_throw f p = [Throw]"

definition B_first_throws :: "(string \<times> int) list bodies" where
  "B_first_throws f p = (if f = 0 then [Throw] else [])"

definition B_unsub :: "(string \<times> int) list bodies" where
  "B_unsub f p =
     (if f = 0 then [Unsubscribe USER_CREATED (Fn 1)]
      else if f = 4 then [Subscribe LOG (Fn 5)] else [])"

definition B_resub :: "(string \<times> int) list bodies" where
  "B_resub f p = (if f = 0 then [Subscribe SERVER_STARTED (Fn 0)] else [])"

definition B_sub :: "(string \<times> int) list bodies" where
  "B_sub f p = (if f = 0 then [Subscribe USER_CREATED (Fn 3)] else [])"

definition B_live :: "(string \<times> int) list bodies" where
  "B_live f p =
     (if f = 0 then [Subscribe USER_CREATED (Fn 2)]
      else if f = 1 then [Unsubscribe USER_CREATED (Fn 2)] else [])"

section \<open>Basic facts\<close>

lemma set_values_append [simp]: "set_values (d @ d') = set_values d @ set_values d'"
  by (induction d rule: set_values.induct) simp_all

lemma set_set_values [simp]: "set (set_values d) = {c. Some c \<in> set d}"
  by (induction d rule: set_values.induct) auto

lemma set_values_set_delete: "set_values (set_delete d c) = removeAll c (set_values d)"
  by (induction d rule: set_values.induct) (auto simp: set_delete_def)

lemma set_values_set_clear [simp]: "set_values (set_clear d) = []"
  by (induction d) (simp_all add: set_clear_def)

lemma length_set_delete [simp]: "length (set_delete d c) = length d"
  by (simp add: set_delete_def)

lemma length_set_clear [simp]: "length (set_clear d) = length d"
  by (simp add: set_clear_def)

lemma drop_set_delete:
  "Some c \<notin> set (drop k d) \<Longrightarrow> drop k (set_delete d c) = drop k d"
  by (auto simp: set_delete_def drop_map intro!: map_idI)

lemma set_delete_absent: "Some c \<notin> set d \<Longrightarrow> set_delete d c = d"
  by (auto simp: set_delete_def intro!: map_idI)

lemma distinct_set_add: "distinct (set_values d) \<Longrightarrow> distinct (set_values (set_add d c))"
  by (simp add: set_add_def)

lemma set_values_set_add:
  "set_values (set_add d c) = (if c \<in> set (set_values d) then set_values d else set_values d @ [c])"
  by (simp add: set_add_def)

lemma invoked_fields [simp]:
  "stack (invoked c p s) = stack s"
  "sets (invoked c p s) = sets s"
  "closures (invoked c p s) = closures s"
  "calls (invoked c p s) = calls s @ [(c, p)]"
  "set_data (invoked c p s) r = set_data s r"
  by (simp_all add: invoked_def set_data_def)

lemma set_apply_fields [simp]:
  "stack (set_apply r f s) = stack s"
  "closures (set_apply r f s) = closures s"
  "calls (set_apply r f s) = calls s"
  "length (sets (set_apply r f s)) = length (sets s)"
  by (simp_all add: set_apply_def)

lemma set_data_set_apply:
  "set_data (set_apply r f s) r' =
     (if r' = r \<and> r < length (sets s) then f (set_data s r) else set_data s r')"
  by (auto simp: set_apply_def set_data_def)

lemma unsubscribe_fields [simp]:
  "stack (unsubscribe e c s) = stack s"
  "closures (unsubscribe e c s) = closures s"
  "calls (unsubscribe e c s) = calls s"
  "length (sets (unsubscribe e c s)) = length (sets s)"
  by (simp_all add: unsubscribe_def split: option.splits)

lemma clear_fields [simp]:
  "stack (clear e s) = stack s"
  "closures (clear e s) = closures s"
  "calls (clear e s) = calls s"
  "length (sets (clear e s)) = length (sets s)"
  by (simp_all add: clear_def split: option.splits)

lemma subscribe_fields [simp]:
  "closures (subscribe e c s) = closures s"
  "calls (subscribe e c s) = calls s"
  by (simp_all add: subscribe_def Let_def split: option.splits)

lemma once_fields [simp]:
  "closures (once e c s) = Suc (closures s)"
  "calls (once e c s) = calls s"
  by (simp_all add: once_def)

lemma clearAll_fields [simp]:
  "stack (clearAll s) = []"
  "sets (clearAll s) = sets s"
  "closures (clearAll s) = closures s"
  "calls (clearAll s) = calls s"
  by (simp_all add: clearAll_def)

lemma stack_subscribe:
  "stack (subscribe e c s) =
     (if map_of (stack s) e = None then stack s @ [(e, length (sets s))] else stack s)"
  by (simp add: subscribe_def Let_def split: option.splits)

lemma map_of_stack_subscribe:
  "map_of (stack (subscribe e c s)) e' =
     (if e' = e \<and> map_of (stack s) e = None then Some (length (sets s)) else map_of (stack s) e')"
  by (auto simp: stack_subscribe map_add_def split: option.splits)

lemma map_of_stack_once:
  "map_of (stack (once e c s)) e' =
     (if e' = e \<and> map_of (stack s) e = None then Some (length (sets s)) else map_of (stack s) e')"
  by (simp add: once_def map_of_stack_subscribe)

lemma calls_effect [simp]: "calls (effect a s) = calls s"
  by (cases a) simp_all

lemma calls_fold_effect [simp]: "calls (fold effect as s) = calls s"
  by (induction as arbitrary: s) simp_all

lemma map_of_stack_effect:
  "apart K a \<Longrightarrow> map_of (stack (effect a s)) K = map_of (stack s) K"
  by (cases a) (simp_all add: map_of_stack_subscribe map_of_stack_once)

lemma wf_valid: "wf_bus s \<Longrightarrow> map_of (stack s) e = Some r \<Longrightarrow> r < length (sets s)"
  by (auto simp: wf_bus_def list_all_iff dest!: map_of_SomeD)

lemma wf_inj:
  "wf_bus s \<Longrightarrow> map_of (stack s) e = Some r \<Longrightarrow> map_of (stack s) e' = Some r \<Longrightarrow> e = e'"
proof -
  assume w: "wf_bus s" and a: "map_of (stack s) e = Some r" and b: "map_of (stack s) e' = Some r"
  from a b have "(e, r) \<in> set (stack s)" "(e', r) \<in> set (stack s)"
    by (auto dest: map_of_SomeD)
  moreover from w have "inj_on snd (set (stack s))"
    by (simp add: wf_bus_def distinct_map)
  ultimately show "e = e'" using inj_onD [of snd "set (stack s)" "(e, r)" "(e', r)"] by simp
qed

lemma wf_distinct_data: "wf_bus s \<Longrightarrow> distinct (set_values (set_data s r))"
  by (auto simp: wf_bus_def list_all_iff set_data_def)

lemma wf_distinct_entries: "wf_bus s \<Longrightarrow> distinct (set_values (entries e s))"
  by (auto simp: entries_def wf_distinct_data split: option.splits)

lemma wf_set_apply:
  assumes "wf_bus s" "\<And>d. distinct (set_values d) \<Longrightarrow> distinct (set_values (f d))"
  shows "wf_bus (set_apply r f s)"
proof -
  have "list_all (\<lambda>d. distinct (set_values d)) ((sets s)[r := f (set_data s r)])"
    using assms wf_distinct_data [OF assms(1), of r]
    by (auto simp: wf_bus_def list_all_iff dest!: set_update_subset_insert [THEN subsetD])
  then show ?thesis using assms(1) by (simp add: wf_bus_def set_apply_def)
qed

lemma wf_init [simp]: "wf_bus init"
  by (simp add: wf_bus_def init_def)

lemma wf_unsubscribe: "wf_bus s \<Longrightarrow> wf_bus (unsubscribe e c s)"
  by (auto simp: unsubscribe_def set_values_set_delete distinct_removeAll
      intro!: wf_set_apply split: option.splits)

lemma wf_clear: "wf_bus s \<Longrightarrow> wf_bus (clear e s)"
  by (auto simp: clear_def intro!: wf_set_apply split: option.splits)

lemma wf_clearAll: "wf_bus s \<Longrightarrow> wf_bus (clearAll s)"
  by (simp add: wf_bus_def clearAll_def)

lemma wf_invoked [simp]: "wf_bus (invoked c p s) = wf_bus s"
  by (simp add: wf_bus_def)

lemma wf_closures_update [simp]: "wf_bus (s\<lparr>closures := n\<rparr>) = wf_bus s"
  by (simp add: wf_bus_def)

lemma wf_alloc:
  assumes "wf_bus s" "map_of (stack s) e = None"
  shows "wf_bus (s\<lparr>stack := stack s @ [(e, length (sets s))], sets := sets s @ [[]]\<rparr>)"
proof -
  from assms(2) have "e \<notin> fst ` set (stack s)"
    by (simp add: map_of_eq_None_iff)
  moreover from assms(1) have "length (sets s) \<notin> snd ` set (stack s)"
    by (auto simp: wf_bus_def list_all_iff)
  ultimately show ?thesis using assms(1)
    by (auto simp: wf_bus_def list_all_iff)
qed

lemma wf_subscribe: "wf_bus s \<Longrightarrow> wf_bus (subscribe e c s)"
  unfolding subscribe_def Let_def
  by (auto simp: distinct_set_add intro!: wf_set_apply wf_alloc split: option.splits)

lemma wf_once: "wf_bus s \<Longrightarrow> wf_bus (once e c s)"
  by (simp add: once_def wf_subscribe)

lemma entries_subscribe:
  assumes "wf_bus s"
  shows "entries e' (subscribe e c s) =
           (if e' = e then set_add (entries e s) c else entries e' s)"
proof (cases "map_of (stack s) e")
  case None
  let ?s1 = "s\<lparr>stack := stack s @ [(e, length (sets s))], sets := sets s @ [[]]\<rparr>"
  have sub: "subscribe e c s = set_apply (length (sets s)) (\<lambda>d. set_add d c) ?s1"
    using None by (simp add: subscribe_def Let_def map_add_def)
  show ?thesis
  proof (cases "e' = e")
    case True
    then show ?thesis using None
      by (simp add: sub entries_def map_add_def set_data_set_apply) (simp add: set_data_def)
  next
    case False
    show ?thesis
    proof (cases "map_of (stack s) e'")
      case None
      then show ?thesis using False by (simp add: sub entries_def map_add_def)
    next
      case (Some r')
      then have "r' < length (sets s)" using assms by (rule wf_valid [rotated])
      then show ?thesis using False Some
        by (simp add: sub entries_def map_add_def set_data_set_apply) (simp add: set_data_def nth_append)
    qed
  qed
next
  case (Some r)
  have sub: "subscribe e c s = set_apply r (\<lambda>d. set_add d c) s"
    using Some by (simp add: subscribe_def)
  have r: "r < length (sets s)" using assms Some by (rule wf_valid)
  show ?thesis
  proof (cases "e' = e")
    case True
    then show ?thesis using Some r by (simp add: sub entries_def set_data_set_apply)
  next
    case False
    then have "map_of (stack s) e' \<noteq> Some r" using wf_inj [OF assms _ Some] by blast
    then show ?thesis using False Some
      by (auto simp: sub entries_def set_data_set_apply split: option.splits)
  qed
qed

lemma entries_set_apply:
  assumes "wf_bus s" "map_of (stack s) e = Some r"
  shows "entries e' (set_apply r f s) = (if e' = e then f (entries e s) else entries e' s)"
proof (cases "e' = e")
  case True
  then show ?thesis using assms wf_valid [OF assms]
    by (simp add: entries_def set_data_set_apply)
next
  case False
  then have "map_of (stack s) e' \<noteq> Some r" using wf_inj [OF assms(1) _ assms(2)] by blast
  then show ?thesis using False
    by (auto simp: entries_def set_data_set_apply split: option.splits)
qed

lemma entries_unsubscribe:
  "wf_bus s \<Longrightarrow> entries e' (unsubscribe e c s) =
     (if e' = e then set_delete (entries e s) c else entries e' s)"
  by (cases "map_of (stack s) e")
     (simp_all add: unsubscribe_def entries_set_apply, simp add: entries_def set_delete_def)

lemma entries_clear:
  "wf_bus s \<Longrightarrow> entries e' (clear e s) =
     (if e' = e then set_clear (entries e s) else entries e' s)"
  by (cases "map_of (stack s) e")
     (simp_all add: clear_def entries_set_apply, simp add: entries_def set_clear_def)

lemma entries_invoked [simp]: "entries e (invoked c p s) = entries e s"
  by (simp add: entries_def cong: option.case_cong)

lemma entries_closures_update [simp]: "entries e (s\<lparr>closures := n\<rparr>) = entries e s"
  by (simp add: entries_def set_data_def split: option.splits)

lemma entries_once:
  "wf_bus s \<Longrightarrow> entries e' (once e c s) =
     (if e' = e then set_add (entries e s) (OnceFn (closures s) e c) else entries e' s)"
  by (simp add: once_def entries_subscribe)

lemma wf_effect: "wf_bus s \<Longrightarrow> wf_bus (effect a s)"
  by (cases a) (simp_all add: wf_subscribe wf_unsubscribe wf_once wf_clear wf_clearAll)

lemma wf_fold_effect: "wf_bus s \<Longrightarrow> wf_bus (fold effect as s)"
  by (induction as arbitrary: s) (simp_all add: wf_effect)

lemma entries_effect: "wf_bus s \<Longrightarrow> apart K a \<Longrightarrow> entries K (effect a s) = entries K s"
  by (cases a) (simp_all add: entries_subscribe entries_unsubscribe entries_once entries_clear)

lemma entries_fold_effect:
  "wf_bus s \<Longrightarrow> list_all (apart K) as \<Longrightarrow> entries K (fold effect as s) = entries K s"
  by (induction as arbitrary: s) (simp_all add: wf_effect entries_effect)

lemma map_of_stack_fold_effect:
  "list_all (apart K) as \<Longrightarrow> map_of (stack (fold effect as s)) K = map_of (stack s) K"
  by (induction as arbitrary: s) (simp_all add: map_of_stack_effect)

lemma apart_direct: "apart K a \<Longrightarrow> direct a"
  by (cases a) simp_all

lemma run_direct:
  "list_all direct as \<Longrightarrow> length as \<le> n \<Longrightarrow> run n B as s = Some (Returned (fold effect as s))"
proof (induction as arbitrary: n s)
  case Nil
  then show ?case by simp
next
  case (Cons a as)
  then obtain m where n: "n = Suc m" by (cases n) auto
  with Cons.prems have m: "length as \<le> m" and d: "list_all direct as" and a: "direct a"
    by simp_all
  from Cons.IH [OF d m] a show ?case
    by (cases a) (simp_all add: n)
qed

lemma run_apart:
  "list_all (apart K) as \<Longrightarrow> length as \<le> n \<Longrightarrow> run n B as s = Some (Returned (fold effect as s))"
  by (rule run_direct) (auto simp: list_all_iff apart_direct)

lemma invoke_calm:
  "calm B K p c \<Longrightarrow> length (body B p c) + 2 \<le> n \<Longrightarrow>
     invoke n B c p s = Some (Returned (settle B p c s))"
proof (induction B K p c rule: calm.induct)
  case (1 B K p f)
  then obtain m where n: "n = Suc m" and m: "length (B f p) \<le> m"
    by (cases n) auto
  show ?case using run_apart [of K "B f p" m B] 1(1) m by (simp add: n)
next
  case (2 B K p i e f)
  then obtain m where n: "n = Suc (Suc m)" and m: "length (B f p) \<le> m"
    by (cases n; cases "n - 1") auto
  show ?case using run_apart [of K "B f p" m B] 2(1) m by (simp add: n)
next
  case (3 B K p i e j e' c)
  then show ?case by simp
qed

lemma calls_settle [simp]: "calls (settle B p c s) = calls s @ trace p c"
  by (induction B p c s rule: settle.induct) simp_all

lemma wf_settle: "wf_bus s \<Longrightarrow> wf_bus (settle B p c s)"
  by (induction B p c s rule: settle.induct) (simp_all add: wf_fold_effect wf_unsubscribe)

lemma map_of_stack_settle:
  "calm B K p c \<Longrightarrow> map_of (stack (settle B p c s)) K = map_of (stack s) K"
  by (induction B K p c rule: calm.induct) (simp_all add: map_of_stack_fold_effect)

lemma entries_settle:
  "wf_bus s \<Longrightarrow> calm B K p c \<Longrightarrow>
     entries K (settle B p c s) =
       (if once_for K c then set_delete (entries K s) c else entries K s)"
  by (induction B K p c rule: calm.induct)
     (simp_all add: entries_fold_effect entries_unsubscribe wf_fold_effect)

lemma entries_Some: "map_of (stack s) K = Some r \<Longrightarrow> set_data s r = entries K s"
  by (simp add: entries_def)

lemma forEach_end:
  "length (set_data s r) \<le> i \<Longrightarrow> forEach (Suc n) B r i p s = Some (Returned s)"
  by simp

lemma forEach_skip:
  "i < length (set_data s r) \<Longrightarrow> set_data s r ! i = None \<Longrightarrow>
     forEach (Suc n) B r i p s = forEach n B r (Suc i) p s"
  by simp

lemma forEach_call:
  "i < length (set_data s r) \<Longrightarrow> set_data s r ! i = Some c \<Longrightarrow>
   invoke n B c p s = Some (Returned s1) \<Longrightarrow>
     forEach (Suc n) B r i p s = forEach n B r (Suc i) p s1"
  by simp

lemma forEach_throw:
  "i < length (set_data s r) \<Longrightarrow> set_data s r ! i = Some c \<Longrightarrow>
   invoke n B c p s = Some (Thrown s1) \<Longrightarrow>
     forEach (Suc n) B r i p s = Some (Thrown s1)"
  by simp

lemma dispatch_unfold:
  "dispatch n B K p s =
     (case map_of (stack s) K of None \<Rightarrow> Some (Returned s) | Some r \<Rightarrow> forEach n B r 0 p s)"
  by simp

declare invoke.simps [simp del] run.simps [simp del] dispatch.simps [simp del]
  forEach.simps [simp del]

lemma forEach_calm_steps:
  "wf_bus s \<Longrightarrow> map_of (stack s) K = Some r \<Longrightarrow> i + k \<le> length (entries K s) \<Longrightarrow>
   \<forall>c. Some c \<in> set (take k (drop i (entries K s))) \<longrightarrow>
         calm B K p c \<and> length (body B p c) \<le> b \<Longrightarrow>
   forEach (k + Suc (Suc (b + n))) B r i p s =
     forEach (Suc (Suc (b + n))) B r (i + k) p
       (fold (settle B p) (set_values (take k (drop i (entries K s)))) s) \<and>
   wf_bus (fold (settle B p) (set_values (take k (drop i (entries K s)))) s) \<and>
   map_of (stack (fold (settle B p) (set_values (take k (drop i (entries K s)))) s)) K = Some r \<and>
   length (entries K (fold (settle B p) (set_values (take k (drop i (entries K s)))) s))
     = length (entries K s) \<and>
   drop (i + k) (entries K (fold (settle B p) (set_values (take k (drop i (entries K s)))) s))
     = drop (i + k) (entries K s)"
proof (induction k arbitrary: i s)
  case 0
  then show ?case by simp
next
  case (Suc k)
  let ?d = "entries K s"
  have sd: "set_data s r = ?d" using Suc.prems(2) by (rule entries_Some)
  from Suc.prems(3) have lt: "i < length ?d" by simp
  then have dr: "drop i ?d = ?d ! i # drop (Suc i) ?d"
    by (simp add: Cons_nth_drop_Suc)
  then have tk: "take (Suc k) (drop i ?d) = ?d ! i # take k (drop (Suc i) ?d)"
    by simp
  show ?case
  proof (cases "?d ! i")
    case None
    have q: "\<forall>c. Some c \<in> set (take k (drop (Suc i) ?d)) \<longrightarrow>
               calm B K p c \<and> length (body B p c) \<le> b"
      using Suc.prems(4) tk by auto
    have le: "Suc i + k \<le> length ?d" using Suc.prems(3) by simp
    have step: "forEach (Suc k + Suc (Suc (b + n))) B r i p s =
                  forEach (k + Suc (Suc (b + n))) B r (Suc i) p s"
      using forEach_skip [of i s r "k + Suc (Suc (b + n))" B p] lt None sd by simp
    have sv: "set_values (take (Suc k) (drop i ?d)) = set_values (take k (drop (Suc i) ?d))"
      using tk None by simp
    from Suc.IH [OF Suc.prems(1) Suc.prems(2) le q]
    show ?thesis unfolding step sv by simp
  next
    case (Some c)
    have qc: "calm B K p c" and bc: "length (body B p c) \<le> b"
      using Suc.prems(4) tk Some by auto
    have "distinct (set_values (drop i ?d))"
      using wf_distinct_entries [OF Suc.prems(1), of K]
      by (metis append_take_drop_id distinct_append set_values_append)
    then have notin: "Some c \<notin> set (drop (Suc i) ?d)"
      using dr Some by auto
    let ?s1 = "settle B p c s"
    have w1: "wf_bus ?s1" using Suc.prems(1) by (rule wf_settle)
    have m1: "map_of (stack ?s1) K = Some r"
      using map_of_stack_settle [OF qc] Suc.prems(2) by simp
    have e1: "entries K ?s1 = (if once_for K c then set_delete ?d c else ?d)"
      using entries_settle [OF Suc.prems(1) qc] .
    have len1: "length (entries K ?s1) = length ?d"
      by (simp add: e1)
    have drop1: "drop (Suc i) (entries K ?s1) = drop (Suc i) ?d"
      using notin by (simp add: e1 drop_set_delete)
    have drop2: "drop (Suc i + k) (entries K ?s1) = drop (Suc i + k) ?d"
      using drop1 by (metis add.commute drop_drop)
    have q: "\<forall>c. Some c \<in> set (take k (drop (Suc i) (entries K ?s1))) \<longrightarrow>
               calm B K p c \<and> length (body B p c) \<le> b"
      using Suc.prems(4) tk drop1 by auto
    have le: "Suc i + k \<le> length (entries K ?s1)"
      using Suc.prems(3) len1 by simp
    have inv: "invoke (k + Suc (Suc (b + n))) B c p s = Some (Returned ?s1)"
      using bc by (intro invoke_calm [OF qc]) simp
    have step: "forEach (Suc k + Suc (Suc (b + n))) B r i p s =
                  forEach (k + Suc (Suc (b + n))) B r (Suc i) p ?s1"
      using forEach_call [of i s r c "k + Suc (Suc (b + n))" B p ?s1] lt Some sd inv by simp
    have sv: "set_values (take (Suc k) (drop i ?d)) = c # set_values (take k (drop (Suc i) ?d))"
      using tk Some by simp
    from Suc.IH [OF w1 m1 le q]
    show ?thesis unfolding step sv using drop1 drop2 len1 by simp
  qed
qed

lemma wf_fold_settle: "wf_bus s \<Longrightarrow> wf_bus (fold (settle B p) cs s)"
  by (induction cs arbitrary: s) (simp_all add: wf_settle)

lemma calls_fold_settle [simp]:
  "calls (fold (settle B p) cs s) = calls s @ concat (map (trace p) cs)"
  by (induction cs arbitrary: s) simp_all

lemma map_of_stack_fold_settle:
  "list_all (calm B K p) cs \<Longrightarrow>
     map_of (stack (fold (settle B p) cs s)) K = map_of (stack s) K"
  by (induction cs arbitrary: s) (simp_all add: map_of_stack_settle)

lemma length_entries_fold_settle:
  "wf_bus s \<Longrightarrow> list_all (calm B K p) cs \<Longrightarrow>
     length (entries K (fold (settle B p) cs s)) = length (entries K s)"
  by (induction cs arbitrary: s) (simp_all add: wf_settle entries_settle)

lemma members_settle:
  "wf_bus s \<Longrightarrow> calm B K p c \<Longrightarrow>
     members K (settle B p c s) =
       (if once_for K c then removeAll c (members K s) else members K s)"
  by (simp add: members_def entries_settle set_values_set_delete)

lemma members_fold_settle:
  "wf_bus s \<Longrightarrow> list_all (calm B K p) cs \<Longrightarrow>
     members K (fold (settle B p) cs s) =
       filter (\<lambda>c. \<not> (once_for K c \<and> c \<in> set cs)) (members K s)"
proof (induction cs arbitrary: s)
  case Nil
  then show ?case by simp
next
  case (Cons c cs)
  have w: "wf_bus (settle B p c s)" using Cons.prems(1) by (rule wf_settle)
  have m: "members K (settle B p c s) =
             (if once_for K c then removeAll c (members K s) else members K s)"
    using Cons.prems by (simp add: members_settle)
  have "members K (fold (settle B p) (c # cs) s) =
          filter (\<lambda>x. \<not> (once_for K x \<and> x \<in> set cs)) (members K (settle B p c s))"
    using Cons.IH [OF w] Cons.prems(2) by simp
  also have "\<dots> = filter (\<lambda>x. \<not> (once_for K x \<and> x \<in> set (c # cs))) (members K s)"
    by (auto simp: m removeAll_filter_not_eq intro!: filter_cong)
  finally show ?case .
qed

lemma dispatch_pass:
  assumes "wf_bus s" "list_all (calm B K p) (members K s)"
    and "list_all (\<lambda>c. length (body B p c) \<le> b) (members K s)"
    and "length (entries K s) + b + 2 \<le> n"
  shows "dispatch n B K p s = Some (Returned (fold (settle B p) (members K s) s))"
proof (cases "map_of (stack s) K")
  case None
  then show ?thesis by (simp add: dispatch_unfold members_def entries_def)
next
  case (Some r)
  let ?d = "entries K s"
  let ?s' = "fold (settle B p) (set_values ?d) s"
  obtain m where n: "n = length ?d + Suc (Suc (b + m))"
    using assms(4) le_Suc_ex [of "length ?d + b + 2" n] by auto
  have q: "\<forall>c. Some c \<in> set (take (length ?d) (drop 0 ?d)) \<longrightarrow>
             calm B K p c \<and> length (body B p c) \<le> b"
    using assms(2,3) by (simp add: members_def list_all_iff)
  have le: "0 + length ?d \<le> length ?d" by simp
  from forEach_calm_steps [OF assms(1) Some le q, of m]
  have steps: "forEach (length ?d + Suc (Suc (b + m))) B r 0 p s =
                 forEach (Suc (Suc (b + m))) B r (length ?d) p ?s'"
    and st: "map_of (stack ?s') K = Some r"
    and len: "length (entries K ?s') = length ?d"
    by simp_all
  have "length (set_data ?s' r) \<le> length ?d"
    using len entries_Some [OF st] by simp
  then have "forEach (Suc (Suc (b + m))) B r (length ?d) p ?s' = Some (Returned ?s')"
    by (rule forEach_end)
  with steps have "forEach n B r 0 p s = Some (Returned ?s')"
    by (simp only: n)
  then show ?thesis using Some by (simp add: dispatch_unfold members_def)
qed

lemma le_sum_list_map: "c \<in> set cs \<Longrightarrow> (f c :: nat) \<le> sum_list (map f cs)"
  by (induction cs) auto

lemma dispatch_pass_ex:
  assumes "wf_bus s" "list_all (calm B K p) (members K s)"
  shows "\<exists>N. \<forall>n\<ge>N. dispatch n B K p s = Some (Returned (fold (settle B p) (members K s) s))"
proof -
  let ?b = "sum_list (map (\<lambda>c. length (body B p c)) (members K s))"
  have b: "list_all (\<lambda>c. length (body B p c) \<le> ?b) (members K s)"
    unfolding list_all_iff
  proof
    fix c assume "c \<in> set (members K s)"
    then show "length (body B p c) \<le> ?b" by (rule le_sum_list_map)
  qed
  have "\<forall>n\<ge>length (entries K s) + ?b + 2.
      dispatch n B K p s = Some (Returned (fold (settle B p) (members K s) s))"
  proof (intro allI impI)
    fix n assume "length (entries K s) + ?b + 2 \<le> n"
    with assms b show "dispatch n B K p s = Some (Returned (fold (settle B p) (members K s) s))"
      by (rule dispatch_pass)
  qed
  then show ?thesis ..
qed

lemma trace_calm:
  "calm B K p c \<Longrightarrow> trace p c = (c, p) # map (\<lambda>x. (x, p)) (callee c)"
  by (induction B K p c rule: calm.induct) simp_all

lemma count_traces:
  "list_all (calm B K p) cs \<Longrightarrow>
     count_list (concat (map (trace p) cs)) (x, p) =
       count_list cs x + count_list (concat (map callee cs)) x"
proof (induction cs)
  case Nil
  then show ?case by simp
next
  case (Cons c cs)
  then have c: "calm B K p c" by simp
  have "count_list (map (\<lambda>y. (y, p)) (callee c)) (x, p) = count_list (callee c) x"
    by (cases c) auto
  then show ?case using Cons by (auto simp: trace_calm [OF c])
qed

lemma traces_payload:
  "(x, q) \<in> set (concat (map (trace p) cs)) \<Longrightarrow> q = p"
proof (induction cs)
  case Nil
  then show ?case by simp
next
  case (Cons c cs)
  have "\<And>y. (y, q) \<in> set (trace p c) \<Longrightarrow> q = p"
    by (induction p c rule: trace.induct) auto
  with Cons show ?case by auto
qed

lemma trace_head: "(c, p) \<in> set (trace p c)"
  by (cases c) simp_all

lemma count_list_distinct: "distinct xs \<Longrightarrow> x \<in> set xs \<Longrightarrow> count_list xs x = 1"
  by (induction xs) (auto simp: count_list_0_iff)

lemma trace_plain: "plain c \<Longrightarrow> trace p c = [(c, p)]"
  by (cases c) simp_all

lemma traces_plain: "list_all plain cs \<Longrightarrow> concat (map (trace p) cs) = map (\<lambda>c. (c, p)) cs"
  by (induction cs) (simp_all add: trace_plain)

lemma members_subscribe:
  "wf_bus s \<Longrightarrow> members K' (subscribe K c s) =
     (if K' = K \<and> c \<notin> set (members K s) then members K s @ [c] else members K' s)"
  by (simp add: members_def entries_subscribe set_values_set_add)

lemmas bus_eval =
  init_def subscribe_def unsubscribe_def once_def clear_def clearAll_def batch_def
  multiple_def set_apply_def set_data_def set_add_def set_delete_def set_clear_def
  invoked_def entries_def members_def wf_bus_def get_def events_def Let_def
  invoke.simps run.simps dispatch.simps forEach.simps


lemma set_add_idem: "set_add (set_add d c) c = set_add d c"
  by (simp add: set_add_def)

lemma set_apply_idem:
  assumes "\<And>d. f (f d) = f d"
  shows "set_apply r f (set_apply r f s) = set_apply r f s"
proof (cases "r < length (sets s)")
  case True
  then show ?thesis
    by (simp add: set_apply_def set_data_def assms)
next
  case False
  then show ?thesis
    by (simp add: set_apply_def set_data_def)
qed

lemma subscribe_idem: "subscribe K L (subscribe K L s) = subscribe K L s"
proof (cases "map_of (stack s) K")
  case None
  let ?s1 = "s\<lparr>stack := stack s @ [(K, length (sets s))], sets := sets s @ [[]]\<rparr>"
  have 1: "subscribe K L s = set_apply (length (sets s)) (\<lambda>d. set_add d L) ?s1"
    using None by (simp add: subscribe_def Let_def map_add_def)
  have 2: "map_of (stack (set_apply (length (sets s)) (\<lambda>d. set_add d L) ?s1)) K
             = Some (length (sets s))"
    using None by (simp add: map_add_def)
  have "subscribe K L (set_apply (length (sets s)) (\<lambda>d. set_add d L) ?s1) =
          set_apply (length (sets s)) (\<lambda>d. set_add d L)
            (set_apply (length (sets s)) (\<lambda>d. set_add d L) ?s1)"
    using 2 by (simp add: subscribe_def Let_def)
  then show ?thesis unfolding 1 by (simp add: set_apply_idem set_add_idem)
next
  case (Some r)
  have 1: "subscribe K L s = set_apply r (\<lambda>d. set_add d L) s"
    using Some by (simp add: subscribe_def)
  have "subscribe K L (set_apply r (\<lambda>d. set_add d L) s) =
          set_apply r (\<lambda>d. set_add d L) (set_apply r (\<lambda>d. set_add d L) s)"
    using Some by (simp add: subscribe_def)
  then show ?thesis unfolding 1 by (simp add: set_apply_idem set_add_idem)
qed

lemma not_in_traces:
  assumes "list_all (calm B K p) cs" "x \<notin> set cs" "x \<notin> set (concat (map callee cs))"
  shows "(x, q) \<notin> set (concat (map (trace p) cs))"
proof
  assume a: "(x, q) \<in> set (concat (map (trace p) cs))"
  then have "q = p" by (rule traces_payload)
  with a have "count_list (concat (map (trace p) cs)) (x, p) \<noteq> 0"
    by (simp add: count_list_0_iff)
  moreover have "count_list (concat (map (trace p) cs)) (x, p) = 0"
    using assms by (simp add: count_traces [of B K p] count_list_0_iff)
  ultimately show False by simp
qed

lemma forEach_no_values:
  "set_values (drop i (set_data s r)) = [] \<Longrightarrow> length (set_data s r) - i < n \<Longrightarrow>
     forEach n B r i p s = Some (Returned s)"
proof (induction n arbitrary: i)
  case 0
  then show ?case by simp
next
  case (Suc n)
  show ?case
  proof (cases "i < length (set_data s r)")
    case False
    then show ?thesis by (intro forEach_end) simp
  next
    case True
    then have dr: "drop i (set_data s r) = set_data s r ! i # drop (Suc i) (set_data s r)"
      by (simp add: Cons_nth_drop_Suc)
    with Suc.prems(1) have none: "set_data s r ! i = None"
      and rest: "set_values (drop (Suc i) (set_data s r)) = []"
      by (cases "set_data s r ! i"; simp)+
    have "length (set_data s r) - Suc i < n" using Suc.prems(2) True by simp
    with rest have "forEach n B r (Suc i) p s = Some (Returned s)" by (rule Suc.IH)
    then show ?thesis using forEach_skip [OF True none, of n B p] by simp
  qed
qed

lemma dispatch_no_members:
  "members K s = [] \<Longrightarrow> length (entries K s) < n \<Longrightarrow> dispatch n B K p s = Some (Returned s)"
  by (cases "map_of (stack s) K")
     (simp_all add: dispatch_unfold members_def entries_def forEach_no_values)

lemma dispatch_no_members_ex:
  "members K s = [] \<Longrightarrow> \<exists>N. \<forall>n\<ge>N. dispatch n B K p s = Some (Returned s)"
proof
  assume "members K s = []"
  then show "\<forall>n\<ge>Suc (length (entries K s)). dispatch n B K p s = Some (Returned s)"
    by (simp add: dispatch_no_members)
qed

lemma set_apply_same: "f (set_data s r) = set_data s r \<Longrightarrow> set_apply r f s = s"
  by (cases "r < length (sets s)") (simp_all add: set_apply_def set_data_def list_update_beyond)

lemma set_clear_no_values: "set_values d = [] \<Longrightarrow> set_clear d = d"
  by (induction d rule: set_values.induct) (simp_all add: set_clear_def)

lemma subscribe_present: "L \<in> set (members K s) \<Longrightarrow> subscribe K L s = s"
proof (cases "map_of (stack s) K")
  case None
  assume "L \<in> set (members K s)"
  with None show ?thesis by (simp add: members_def entries_def)
next
  case (Some r)
  assume "L \<in> set (members K s)"
  with Some have "set_add (set_data s r) L = set_data s r"
    by (simp add: members_def entries_def set_add_def)
  then show ?thesis using Some by (simp add: subscribe_def set_apply_same)
qed

lemma unsubscribe_absent: "L \<notin> set (members K s) \<Longrightarrow> unsubscribe K L s = s"
proof (cases "map_of (stack s) K")
  case None
  then show ?thesis by (simp add: unsubscribe_def)
next
  case (Some r)
  assume "L \<notin> set (members K s)"
  with Some have "set_delete (set_data s r) L = set_data s r"
    by (simp add: members_def entries_def set_delete_absent)
  then show ?thesis using Some by (simp add: unsubscribe_def set_apply_same)
qed

lemma clear_no_members: "members K s = [] \<Longrightarrow> clear K s = s"
proof (cases "map_of (stack s) K")
  case None
  then show ?thesis by (simp add: clear_def)
next
  case (Some r)
  assume "members K s = []"
  with Some have "set_clear (set_data s r) = set_data s r"
    by (simp add: members_def entries_def set_clear_no_values)
  then show ?thesis using Some by (simp add: clear_def set_apply_same)
qed

lemma no_throw_step:
  assumes B: "\<forall>f p. Throw \<notin> set (B f p)"
    and IH: "\<And>c p s t. invoke n B c p s \<noteq> Some (Thrown t)"
      "\<And>as s t. Throw \<notin> set as \<Longrightarrow> run n B as s \<noteq> Some (Thrown t)"
      "\<And>r i p s t. forEach n B r i p s \<noteq> Some (Thrown t)"
  shows "invoke (Suc n) B c p s \<noteq> Some (Thrown t)"
    and "Throw \<notin> set as \<longrightarrow> run (Suc n) B as s \<noteq> Some (Thrown t)"
    and "forEach (Suc n) B r i p s \<noteq> Some (Thrown t)"
proof -
  have d: "\<And>e p s t. dispatch n B e p s \<noteq> Some (Thrown t)"
    using IH(3) by (simp add: dispatch_unfold split: option.splits)
  show "invoke (Suc n) B c p s \<noteq> Some (Thrown t)"
    using B IH(1,2) by (cases c) (auto simp: invoke.simps split: option.splits outcome.splits)
  show "Throw \<notin> set as \<longrightarrow> run (Suc n) B as s \<noteq> Some (Thrown t)"
  proof (cases as)
    case Nil
    then show ?thesis by (simp add: run.simps)
  next
    case (Cons a as')
    show ?thesis
    proof
      assume "Throw \<notin> set as"
      with Cons have "a \<noteq> Throw" "Throw \<notin> set as'" by auto
      then show "run (Suc n) B as s \<noteq> Some (Thrown t)" using IH(2) d unfolding Cons
        by (cases a) (auto simp: run.simps split: option.splits outcome.splits)
    qed
  qed
  show "forEach (Suc n) B r i p s \<noteq> Some (Thrown t)"
    using IH(1,3) by (auto simp: forEach.simps split: option.splits outcome.splits)
qed

lemma no_throw:
  fixes B :: "'a bodies"
  assumes "\<forall>f p. Throw \<notin> set (B f p)"
  shows "(\<forall>c p s t. invoke n B c p s \<noteq> Some (Thrown t)) \<and>
         (\<forall>as s t. Throw \<notin> set as \<longrightarrow> run n B as s \<noteq> Some (Thrown t)) \<and>
         (\<forall>r i p s t. forEach n B r i p s \<noteq> Some (Thrown t))"
proof (induction n)
  case 0
  have "\<And>as s t. run 0 B as s \<noteq> Some (Thrown t)"
    subgoal for as s t by (cases as) (simp_all add: run.simps)
    done
  then show ?case by (simp add: invoke.simps forEach.simps)
next
  case (Suc n)
  from Suc have a: "\<And>c p s t. invoke n B c p s \<noteq> Some (Thrown t)"
    and b: "\<And>as s t. Throw \<notin> set as \<Longrightarrow> run n B as s \<noteq> Some (Thrown t)"
    and c: "\<And>r i p s t. forEach n B r i p s \<noteq> Some (Thrown t)"
    by blast+
  show ?case
  proof (intro conjI allI)
    fix c p s t show "invoke (Suc n) B c p s \<noteq> Some (Thrown t)"
      by (rule no_throw_step (1) [OF assms a b c])
  next
    fix as s t
    show "Throw \<notin> set as \<longrightarrow> run (Suc n) B as s \<noteq> Some (Thrown t)"
      by (rule no_throw_step (2) [OF assms a b c])
  next
    fix r i p s t show "forEach (Suc n) B r i p s \<noteq> Some (Thrown t)"
      by (rule no_throw_step (3) [OF assms a b c])
  qed
qed

lemma dispatch_no_throw:
  "\<forall>f p. Throw \<notin> set (B f p) \<Longrightarrow> dispatch n B K P s \<noteq> Some (Thrown t)"
  using no_throw [of B n] by (simp add: dispatch_unfold split: option.splits)

lemma members_clear_same: "members K (clear K s) = []"
proof (cases "map_of (stack s) K")
  case None
  then show ?thesis by (simp add: members_def entries_def clear_def)
next
  case (Some r)
  then show ?thesis
    by (simp add: members_def entries_def clear_def set_data_set_apply) (simp add: set_data_def)
qed

lemma get_members: "get K s = (if map_of (stack s) K = None then None else Some (members K s))"
  by (simp add: get_def members_def entries_def split: option.splits)

lemma events_entry: "K \<in> set (events s) \<longleftrightarrow> map_of (stack s) K \<noteq> None"
  by (simp add: events_def map_of_eq_None_iff)

lemma entry_subscribe: "map_of (stack (subscribe K c s)) K \<noteq> None"
  by (simp add: map_of_stack_subscribe)

lemma entry_kept_subscribe:
  "map_of (stack s) K \<noteq> None \<Longrightarrow> map_of (stack (subscribe K' c s)) K \<noteq> None"
  by (simp add: map_of_stack_subscribe)

lemma entry_kept_batch:
  "map_of (stack s) K \<noteq> None \<Longrightarrow> map_of (stack (batch K' cs s)) K \<noteq> None"
proof (induction cs arbitrary: s)
  case Nil
  then show ?case by (simp add: batch_def)
next
  case (Cons c cs)
  from Cons.prems have "map_of (stack (subscribe K' c s)) K \<noteq> None"
    by (rule entry_kept_subscribe)
  then have "map_of (stack (batch K' cs (subscribe K' c s))) K \<noteq> None"
    by (rule Cons.IH)
  then show ?case by (simp add: batch_def)
qed

lemma entry_batch: "map_of (stack (batch K (c # cs) s)) K \<noteq> None"
  using entry_kept_batch [of "subscribe K c s" K K cs] entry_subscribe [of K c s]
  by (simp add: batch_def)

lemma calls_batch [simp]: "calls (batch K cs s) = calls s"
  unfolding batch_def by (induction cs arbitrary: s) simp_all

lemma clear_then_dispatch:
  "\<exists>N. \<forall>n\<ge>N. dispatch n B K P (clear K s) = Some (Returned (clear K s))"
  by (rule dispatch_no_members_ex) (rule members_clear_same)

lemma members_unsubscribe:
  "wf_bus s \<Longrightarrow> members K' (unsubscribe K c s) =
     (if K' = K then removeAll c (members K s) else members K' s)"
  by (simp add: members_def entries_unsubscribe set_values_set_delete)

lemma members_once:
  "wf_bus s \<Longrightarrow> members K' (once K c s) =
     (if K' = K \<and> OnceFn (closures s) K c \<notin> set (members K s)
      then members K s @ [OnceFn (closures s) K c] else members K' s)"
  by (simp add: members_def entries_once set_values_set_add)

lemma wf_multiple: "wf_bus s \<Longrightarrow> wf_bus (multiple kinds L s)"
  unfolding multiple_def by (induction kinds arbitrary: s) (simp_all add: wf_subscribe)

lemma calls_multiple [simp]: "calls (multiple kinds L s) = calls s"
  unfolding multiple_def by (induction kinds arbitrary: s) simp_all

lemma members_multiple:
  "wf_bus s \<Longrightarrow> members K (multiple kinds L s) =
     (if K \<in> set kinds \<and> L \<notin> set (members K s) then members K s @ [L] else members K s)"
proof (induction kinds arbitrary: s)
  case Nil
  then show ?case by (simp add: multiple_def)
next
  case (Cons e kinds)
  have w: "wf_bus (subscribe e L s)" using Cons.prems by (rule wf_subscribe)
  have "members K (multiple (e # kinds) L s) = members K (multiple kinds L (subscribe e L s))"
    by (simp add: multiple_def)
  also have "\<dots> = (if K \<in> set kinds \<and> L \<notin> set (members K (subscribe e L s))
                    then members K (subscribe e L s) @ [L] else members K (subscribe e L s))"
    by (rule Cons.IH [OF w])
  also have "\<dots> = (if K \<in> set (e # kinds) \<and> L \<notin> set (members K s)
                    then members K s @ [L] else members K s)"
    using Cons.prems by (auto simp: members_subscribe simp del: set_set_values)
  finally show ?case .
qed

lemma built_before_fresh:
  "list_all (built_before n) cs \<Longrightarrow> i \<ge> n \<Longrightarrow> OnceFn i e c \<notin> set cs"
  by (induction cs) auto

lemma plain_not_once_for: "plain c \<Longrightarrow> \<not> once_for K c"
  by (cases c) simp_all

lemma filter_once_pass:
  "list_all plain cs \<Longrightarrow>
     filter (\<lambda>c. \<not> (once_for K c \<and> c \<in> set (cs @ [OnceFn i K x]))) (cs @ [OnceFn i K x]) = cs"
  by (auto simp: filter_id_conv list_all_iff plain_not_once_for)

lemma split_values:
  "set_values d = xs @ c # ys \<Longrightarrow>
     \<exists>i<length d. d ! i = Some c \<and> set_values (take i d) = xs \<and> set_values (drop (Suc i) d) = ys"
proof (induction d arbitrary: xs rule: set_values.induct)
  case 1
  then show ?case by simp
next
  case (2 d)
  then obtain i where "i < length d" "d ! i = Some c" "set_values (take i d) = xs"
      "set_values (drop (Suc i) d) = ys"
    by auto
  then have "Suc i < length (None # d) \<and> (None # d) ! Suc i = Some c \<and>
      set_values (take (Suc i) (None # d)) = xs \<and> set_values (drop (Suc (Suc i)) (None # d)) = ys"
    by simp
  then show ?case by blast
next
  case (3 x d)
  show ?case
  proof (cases xs)
    case Nil
    with 3(2) have "x = c" "set_values d = ys" by simp_all
    then have "0 < length (Some x # d) \<and> (Some x # d) ! 0 = Some c \<and>
        set_values (take 0 (Some x # d)) = xs \<and> set_values (drop (Suc 0) (Some x # d)) = ys"
      using Nil by simp
    then show ?thesis by blast
  next
    case (Cons x' xs')
    with 3(2) have x: "x' = x" and r: "set_values d = xs' @ c # ys" by simp_all
    from 3(1) [OF r] obtain i where "i < length d" "d ! i = Some c" "set_values (take i d) = xs'"
      "set_values (drop (Suc i) d) = ys"
      by auto
    then have "Suc i < length (Some x # d) \<and> (Some x # d) ! Suc i = Some c \<and>
        set_values (take (Suc i) (Some x # d)) = xs \<and>
        set_values (drop (Suc (Suc i)) (Some x # d)) = ys"
      using Cons x by simp
    then show ?thesis by blast
  qed
qed

lemma dispatch_around:
  assumes w: "wf_bus s" and st: "map_of (stack s) K = Some r"
    and i: "i < length (entries K s)" and at: "entries K s ! i = Some (Fn a)"
    and pre: "\<forall>c. Some c \<in> set (take i (entries K s)) \<longrightarrow>
                calm B K P c \<and> length (body B P c) \<le> b"
    and ba: "length (B a P) \<le> b" and da: "list_all direct (B a P)"
    and s1: "s1 = fold (settle B P) (set_values (take i (entries K s))) s"
    and sA: "sA = fold effect (B a P) (invoked (Fn a) P s1)"
    and stA: "map_of (stack sA) K = Some r"
    and post: "\<forall>c. Some c \<in> set (drop (Suc i) (entries K sA)) \<longrightarrow>
                calm B K P c \<and> length (body B P c) \<le> b"
    and lenA: "Suc i \<le> length (entries K sA)"
  shows "dispatch (length (entries K sA) + b + 2 + n) B K P s =
           Some (Returned (fold (settle B P) (set_values (drop (Suc i) (entries K sA))) sA))"
proof -
  let ?d = "entries K s"
  let ?dA = "entries K sA"
  let ?k = "length ?dA - Suc i"
  let ?s3 = "fold (settle B P) (set_values (drop (Suc i) ?dA)) sA"
  define n1 where "n1 = ?k + 1 + n"
  have fuel: "length ?dA + b + 2 + n = i + Suc (Suc (b + n1))"
    using lenA by (simp add: n1_def)
  have le0: "0 + i \<le> length ?d" using i by simp
  have pre0: "\<forall>c. Some c \<in> set (take i (drop 0 ?d)) \<longrightarrow>
                calm B K P c \<and> length (body B P c) \<le> b"
    using pre by simp
  from forEach_calm_steps [OF w st le0 pre0, of n1]
  have p1: "forEach (i + Suc (Suc (b + n1))) B r 0 P s = forEach (Suc (Suc (b + n1))) B r i P s1"
    and w1: "wf_bus s1" and st1: "map_of (stack s1) K = Some r"
    and len1: "length (entries K s1) = length ?d"
    and drop1: "drop i (entries K s1) = drop i ?d"
    unfolding s1 by simp_all
  have i1: "i < length (set_data s1 r)"
    using i len1 entries_Some [OF st1] by simp
  have "entries K s1 ! i = ?d ! i"
    using drop1 i len1 by (metis Cons_nth_drop_Suc list.inject)
  then have at1: "set_data s1 r ! i = Some (Fn a)"
    using at entries_Some [OF st1] by simp
  have run: "run (b + n1) B (B a P) (invoked (Fn a) P s1) = Some (Returned sA)"
    unfolding sA using da ba by (intro run_direct) simp_all
  have inv: "invoke (Suc (b + n1)) B (Fn a) P s1 = Some (Returned sA)"
    using run by (simp add: invoke.simps)
  have p2: "forEach (Suc (Suc (b + n1))) B r i P s1 = forEach (Suc (b + n1)) B r (Suc i) P sA"
    using i1 at1 inv by (rule forEach_call)
  have wA: "wf_bus sA" unfolding sA using w1 by (simp add: wf_fold_effect)
  have f3: "Suc (b + n1) = ?k + Suc (Suc (b + n))" by (simp add: n1_def)
  have le3: "Suc i + ?k \<le> length ?dA" using lenA by simp
  have tk: "take ?k (drop (Suc i) ?dA) = drop (Suc i) ?dA" by simp
  have post3: "\<forall>c. Some c \<in> set (take ?k (drop (Suc i) ?dA)) \<longrightarrow>
                calm B K P c \<and> length (body B P c) \<le> b"
    using post unfolding tk .
  from forEach_calm_steps [OF wA stA le3 post3, of n]
  have p3: "forEach (?k + Suc (Suc (b + n))) B r (Suc i) P sA =
              forEach (Suc (Suc (b + n))) B r (Suc i + ?k) P ?s3"
    and st3: "map_of (stack ?s3) K = Some r"
    and len3: "length (entries K ?s3) = length ?dA"
    unfolding tk by simp_all
  have "length (set_data ?s3 r) \<le> Suc i + ?k"
    using len3 lenA entries_Some [OF st3] by simp
  then have p4: "forEach (Suc (Suc (b + n))) B r (Suc i + ?k) P ?s3 = Some (Returned ?s3)"
    by (rule forEach_end)
  have "forEach (length ?dA + b + 2 + n) B r 0 P s = forEach (i + Suc (Suc (b + n1))) B r 0 P s"
    by (simp only: fuel)
  also have "\<dots> = forEach (Suc (Suc (b + n1))) B r i P s1" by (rule p1)
  also have "\<dots> = forEach (Suc (b + n1)) B r (Suc i) P sA" by (rule p2)
  also have "\<dots> = forEach (?k + Suc (Suc (b + n))) B r (Suc i) P sA" by (simp only: f3)
  also have "\<dots> = forEach (Suc (Suc (b + n))) B r (Suc i + ?k) P ?s3" by (rule p3)
  also have "\<dots> = Some (Returned ?s3)" by (rule p4)
  finally show ?thesis using st by (simp add: dispatch_unfold)
qed

lemma entries_nonempty_stack:
  "entries K s \<noteq> [] \<Longrightarrow> \<exists>r. map_of (stack s) K = Some r"
  by (cases "map_of (stack s) K") (simp_all add: entries_def)

lemma bound_member:
  "c \<in> set cs \<Longrightarrow> length (body B P c) \<le> sum_list (map (\<lambda>c. length (body B P c)) cs) + m"
  using le_sum_list_map [of c cs "\<lambda>c. length (body B P c)"] by simp

lemma pass_around_listener:
  assumes w: "wf_bus s" and ms: "members K s = ms1 @ Fn a # ms2"
    and da: "list_all direct (B a P)"
    and c1: "list_all (calm B K P) ms1"
    and sA: "sA = fold effect (B a P) (invoked (Fn a) P (fold (settle B P) ms1 s))"
    and stA: "map_of (stack sA) K = map_of (stack s) K"
    and eA: "\<And>i. i < length (entries K s) \<Longrightarrow>
               drop (Suc i) (entries K (fold (settle B P) ms1 s)) = drop (Suc i) (entries K s) \<Longrightarrow>
               length (entries K (fold (settle B P) ms1 s)) = length (entries K s) \<Longrightarrow>
               set_values (drop (Suc i) (entries K s)) = ms2 \<Longrightarrow>
               Suc i \<le> length (entries K sA) \<and> set_values (drop (Suc i) (entries K sA)) = rest"
    and c2: "list_all (calm B K P) rest"
  shows "\<exists>N0. \<forall>n\<ge>N0. dispatch n B K P s = Some (Returned (fold (settle B P) rest sA))"
proof -
  let ?d = "entries K s"
  let ?s1 = "fold (settle B P) ms1 s"
  let ?b = "sum_list (map (\<lambda>c. length (body B P c)) (ms1 @ rest)) + length (B a P)"
  from ms have sv: "set_values ?d = ms1 @ Fn a # ms2" by (simp add: members_def)
  from split_values [OF sv] obtain i where i: "i < length ?d" and at: "?d ! i = Some (Fn a)"
    and tk: "set_values (take i ?d) = ms1" and dr: "set_values (drop (Suc i) ?d) = ms2"
    by blast
  from i have "?d \<noteq> []" by auto
  then obtain r where st: "map_of (stack s) K = Some r"
    using entries_nonempty_stack by blast
  have pre: "\<forall>c. Some c \<in> set (take i ?d) \<longrightarrow> calm B K P c \<and> length (body B P c) \<le> ?b"
  proof (intro allI impI)
    fix c assume "Some c \<in> set (take i ?d)"
    then have "c \<in> set (set_values (take i ?d))" by simp
    then have m: "c \<in> set ms1" unfolding tk .
    then have "c \<in> set (ms1 @ rest)" by simp
    then have "length (body B P c) \<le> ?b" by (rule bound_member)
    moreover have "calm B K P c" using c1 m by (simp add: list_all_iff)
    ultimately show "calm B K P c \<and> length (body B P c) \<le> ?b" by (intro conjI)
  qed
  have le0: "0 + i \<le> length ?d" using i by simp
  have pre0: "\<forall>c. Some c \<in> set (take i (drop 0 ?d)) \<longrightarrow>
                calm B K P c \<and> length (body B P c) \<le> ?b"
    using pre by simp
  from forEach_calm_steps [OF w st le0 pre0, of 0]
  have len1: "length (entries K ?s1) = length ?d"
    and drop1: "drop i (entries K ?s1) = drop i ?d"
    by (simp_all add: tk)
  have drop1': "drop (Suc i) (entries K ?s1) = drop (Suc i) ?d"
    using drop1 by (metis drop_drop plus_1_eq_Suc)
  from eA [OF i drop1' len1 dr]
  have lenA: "Suc i \<le> length (entries K sA)"
    and restA: "set_values (drop (Suc i) (entries K sA)) = rest"
    by simp_all
  have post: "\<forall>c. Some c \<in> set (drop (Suc i) (entries K sA)) \<longrightarrow>
                calm B K P c \<and> length (body B P c) \<le> ?b"
  proof (intro allI impI)
    fix c assume "Some c \<in> set (drop (Suc i) (entries K sA))"
    then have "c \<in> set (set_values (drop (Suc i) (entries K sA)))" by simp
    then have m: "c \<in> set rest" unfolding restA .
    then have "c \<in> set (ms1 @ rest)" by simp
    then have "length (body B P c) \<le> ?b" by (rule bound_member)
    moreover have "calm B K P c" using c2 m by (simp add: list_all_iff)
    ultimately show "calm B K P c \<and> length (body B P c) \<le> ?b" by (intro conjI)
  qed
  have ba: "length (B a P) \<le> ?b" by simp
  have s1: "?s1 = fold (settle B P) (set_values (take i ?d)) s" unfolding tk ..
  have sA': "sA = fold effect (B a P) (invoked (Fn a) P ?s1)" by (rule sA)
  have stA': "map_of (stack sA) K = Some r" using stA st by simp
  have D: "\<And>n. dispatch (length (entries K sA) + ?b + 2 + n) B K P s =
              Some (Returned (fold (settle B P) rest sA))"
    using dispatch_around [OF w st i at pre ba da s1 sA' stA' post lenA]
    unfolding restA .
  have "\<forall>n\<ge>length (entries K sA) + ?b + 2.
           dispatch n B K P s = Some (Returned (fold (settle B P) rest sA))"
  proof (intro allI impI)
    fix n assume "length (entries K sA) + ?b + 2 \<le> n"
    then obtain k where k: "n = length (entries K sA) + ?b + 2 + k"
      using le_Suc_ex by blast
    show "dispatch n B K P s = Some (Returned (fold (settle B P) rest sA))"
      unfolding k by (rule D)
  qed
  then show ?thesis ..
qed

lemma entries_effect_around:
  assumes "wf_bus t" "list_all (apart K) as" "list_all (apart K) bs"
  shows "entries K (fold effect (as @ Subscribe K N # bs) t) = set_add (entries K t) N"
    and "entries K (fold effect (as @ Unsubscribe K V # bs) t) = set_delete (entries K t) V"
proof -
  have w1: "wf_bus (fold effect as t)" using assms(1) by (rule wf_fold_effect)
  have e1: "entries K (fold effect as t) = entries K t"
    using assms(1,2) by (rule entries_fold_effect)
  have "wf_bus (subscribe K N (fold effect as t))" using w1 by (rule wf_subscribe)
  then show "entries K (fold effect (as @ Subscribe K N # bs) t) = set_add (entries K t) N"
    using assms(3) w1 e1 by (simp add: entries_fold_effect entries_subscribe)
  have "wf_bus (unsubscribe K V (fold effect as t))" using w1 by (rule wf_unsubscribe)
  then show "entries K (fold effect (as @ Unsubscribe K V # bs) t) = set_delete (entries K t) V"
    using assms(3) w1 e1 by (simp add: entries_fold_effect entries_unsubscribe)
qed

lemma stack_effect_around:
  assumes "list_all (apart K) as" "list_all (apart K) bs" "map_of (stack t) K \<noteq> None"
  shows "map_of (stack (fold effect (as @ Subscribe K N # bs) t)) K = map_of (stack t) K"
    and "map_of (stack (fold effect (as @ Unsubscribe K V # bs) t)) K = map_of (stack t) K"
  using assms by (simp_all add: map_of_stack_fold_effect map_of_stack_subscribe)

lemma direct_around:
  "list_all (apart K) as \<Longrightarrow> list_all (apart K) bs \<Longrightarrow> direct x \<Longrightarrow>
     list_all direct (as @ x # bs)"
  by (auto simp: list_all_iff apart_direct)

lemma members_entry: "members K s \<noteq> [] \<Longrightarrow> map_of (stack s) K \<noteq> None"
  by (cases "map_of (stack s) K") (simp_all add: members_def entries_def)

lemma pass_reaches_added_listener:
  assumes w: "wf_bus s" and ms: "members K s = ms1 @ Fn a # ms2"
    and body: "B a P = as @ Subscribe K N # bs"
    and as: "list_all (apart K) as" and bs: "list_all (apart K) bs"
    and new: "N \<notin> set (members K s)"
    and calm: "list_all (calm B K P) (ms1 @ ms2 @ [N])"
  shows "\<exists>N0 s'. (\<forall>n\<ge>N0. dispatch n B K P s = Some (Returned s')) \<and>
           calls s' = calls s @ concat (map (trace P) ms1) @ [(Fn a, P)] @
                      concat (map (trace P) ms2) @ trace P N"
proof -
  let ?s1 = "fold (settle B P) ms1 s"
  let ?t = "invoked (Fn a) P ?s1"
  let ?sA = "fold effect (B a P) ?t"
  let ?rest = "ms2 @ [N]"
  from calm have c1: "list_all (calm B K P) ms1" and c2: "list_all (calm B K P) ?rest"
    by simp_all
  have w1: "wf_bus ?s1" using w by (rule wf_fold_settle)
  then have wt: "wf_bus ?t" by simp
  have st1: "map_of (stack ?s1) K = map_of (stack s) K"
    using c1 by (rule map_of_stack_fold_settle)
  have ent: "map_of (stack s) K \<noteq> None" using ms by (intro members_entry) simp
  have da: "list_all direct (B a P)"
    unfolding body using as bs by (rule direct_around) simp
  have stA: "map_of (stack ?sA) K = map_of (stack s) K"
    unfolding body using stack_effect_around(1) [OF as bs, of ?t N] ent st1 by simp
  have m1: "members K ?s1 = filter (\<lambda>c. \<not> (once_for K c \<and> c \<in> set ms1)) (members K s)"
    using w c1 by (rule members_fold_settle)
  have "N \<notin> set (members K ?s1)" using new unfolding m1 by simp
  then have notin: "Some N \<notin> set (entries K ?s1)" by (simp add: members_def)
  have eA: "entries K ?sA = entries K ?s1 @ [Some N]"
    unfolding body using entries_effect_around(1) [OF wt as bs, of N] notin
    by (simp add: set_add_def)
  have E: "\<And>i. i < length (entries K s) \<Longrightarrow>
               drop (Suc i) (entries K ?s1) = drop (Suc i) (entries K s) \<Longrightarrow>
               length (entries K ?s1) = length (entries K s) \<Longrightarrow>
               set_values (drop (Suc i) (entries K s)) = ms2 \<Longrightarrow>
               Suc i \<le> length (entries K ?sA) \<and> set_values (drop (Suc i) (entries K ?sA)) = ?rest"
    unfolding eA by simp
  from pass_around_listener [OF w ms da c1 refl stA E c2]
  obtain N0 where N0: "\<forall>n\<ge>N0. dispatch n B K P s = Some (Returned (fold (settle B P) ?rest ?sA))"
    by blast
  have "calls (fold (settle B P) ?rest ?sA) =
          calls s @ concat (map (trace P) ms1) @ [(Fn a, P)] @
          concat (map (trace P) ms2) @ trace P N"
    by simp
  with N0 show ?thesis by blast
qed

lemma pass_skips_removed_listener:
  assumes w: "wf_bus s" and ms: "members K s = ms1 @ Fn a # ms2"
    and body: "B a P = as @ Unsubscribe K V # bs"
    and as: "list_all (apart K) as" and bs: "list_all (apart K) bs"
    and calm: "list_all (calm B K P) (ms1 @ removeAll V ms2)"
  shows "\<exists>N0 s'. (\<forall>n\<ge>N0. dispatch n B K P s = Some (Returned s')) \<and>
           calls s' = calls s @ concat (map (trace P) ms1) @ [(Fn a, P)] @
                      concat (map (trace P) (removeAll V ms2))"
proof -
  let ?s1 = "fold (settle B P) ms1 s"
  let ?t = "invoked (Fn a) P ?s1"
  let ?sA = "fold effect (B a P) ?t"
  let ?rest = "removeAll V ms2"
  from calm have c1: "list_all (calm B K P) ms1" and c2: "list_all (calm B K P) ?rest"
    by simp_all
  have w1: "wf_bus ?s1" using w by (rule wf_fold_settle)
  then have wt: "wf_bus ?t" by simp
  have st1: "map_of (stack ?s1) K = map_of (stack s) K"
    using c1 by (rule map_of_stack_fold_settle)
  have ent: "map_of (stack s) K \<noteq> None" using ms by (intro members_entry) simp
  have da: "list_all direct (B a P)"
    unfolding body using as bs by (rule direct_around) simp
  have stA: "map_of (stack ?sA) K = map_of (stack s) K"
    unfolding body using stack_effect_around(2) [OF as bs, of ?t V] ent st1 by simp
  have eA: "entries K ?sA = set_delete (entries K ?s1) V"
    unfolding body using entries_effect_around(2) [OF wt as bs, of V] by simp
  have E: "\<And>i. i < length (entries K s) \<Longrightarrow>
               drop (Suc i) (entries K ?s1) = drop (Suc i) (entries K s) \<Longrightarrow>
               length (entries K ?s1) = length (entries K s) \<Longrightarrow>
               set_values (drop (Suc i) (entries K s)) = ms2 \<Longrightarrow>
               Suc i \<le> length (entries K ?sA) \<and> set_values (drop (Suc i) (entries K ?sA)) = ?rest"
  proof -
    fix i assume i: "i < length (entries K s)"
      and d: "drop (Suc i) (entries K ?s1) = drop (Suc i) (entries K s)"
      and l: "length (entries K ?s1) = length (entries K s)"
      and v: "set_values (drop (Suc i) (entries K s)) = ms2"
    have "drop (Suc i) (set_delete (entries K ?s1) V) = set_delete (drop (Suc i) (entries K ?s1)) V"
      by (simp add: set_delete_def drop_map)
    then have "set_values (drop (Suc i) (entries K ?sA)) = ?rest"
      unfolding eA d by (simp add: set_values_set_delete v)
    moreover have "Suc i \<le> length (entries K ?sA)" unfolding eA using i l by simp
    ultimately show "Suc i \<le> length (entries K ?sA) \<and>
        set_values (drop (Suc i) (entries K ?sA)) = ?rest"
      by (intro conjI)
  qed
  from pass_around_listener [OF w ms da c1 refl stA E c2]
  obtain N0 where N0: "\<forall>n\<ge>N0. dispatch n B K P s = Some (Returned (fold (settle B P) ?rest ?sA))"
    by blast
  have "calls (fold (settle B P) ?rest ?sA) =
          calls s @ concat (map (trace P) ms1) @ [(Fn a, P)] @ concat (map (trace P) ?rest)"
    by simp
  with N0 show ?thesis by blast
qed

lemma extends_refl [simp]: "extends s (Returned s)" "extends s (Thrown s)"
  by (simp_all add: extends_def)

lemma extends_trans:
  "calls t = calls s @ ys \<Longrightarrow> extends t out \<Longrightarrow> extends s out"
  by (auto simp: extends_def)

lemma extends_effect: "extends (effect a s) out \<Longrightarrow> extends s out"
  by (simp add: extends_def)

lemma log_grows_step:
  assumes IH: "\<And>c p s out. invoke n B c p s = Some out \<Longrightarrow> extends (invoked c p s) out"
      "\<And>as s out. run n B as s = Some out \<Longrightarrow> extends s out"
      "\<And>r i p s out. forEach n B r i p s = Some out \<Longrightarrow> extends s out"
  shows "invoke (Suc n) B c p s = Some out \<longrightarrow> extends (invoked c p s) out"
    and "run (Suc n) B as s = Some out \<longrightarrow> extends s out"
    and "forEach (Suc n) B r i p s = Some out \<longrightarrow> extends s out"
proof -
  have d: "\<And>e p s out. dispatch n B e p s = Some out \<Longrightarrow> extends s out"
    using IH(3) by (auto simp: dispatch_unfold split: option.splits)
  show "invoke (Suc n) B c p s = Some out \<longrightarrow> extends (invoked c p s) out"
  proof (cases c)
    case (Fn f)
    then show ?thesis using IH(2) by (simp add: invoke.simps)
  next
    case (OnceFn i e c')
    show ?thesis
    proof
      assume a: "invoke (Suc n) B c p s = Some out"
      show "extends (invoked c p s) out"
      proof (cases "invoke n B c' p (invoked c p s)")
        case None
        with a OnceFn show ?thesis by (simp add: invoke.simps)
      next
        case (Some o')
        from IH(1) [OF Some] have e: "extends (invoked c p s) o'"
          by (auto simp: extends_def)
        show ?thesis
        proof (cases o')
          case (Returned t)
          with a OnceFn Some have "out = Returned (unsubscribe e c t)"
            by (simp add: invoke.simps)
          with e Returned show ?thesis by (simp add: extends_def)
        next
          case (Thrown t)
          with a OnceFn Some have "out = Thrown t" by (simp add: invoke.simps)
          with e Thrown show ?thesis by simp
        qed
      qed
    qed
  qed
  show "run (Suc n) B as s = Some out \<longrightarrow> extends s out"
  proof (cases as)
    case Nil
    then show ?thesis by (auto simp: run.simps)
  next
    case (Cons a as')
    show ?thesis
    proof
      assume r: "run (Suc n) B as s = Some out"
      show "extends s out"
      proof (cases a)
        case (Dispatch e q)
        show ?thesis
        proof (cases "dispatch n B e q s")
          case None
          with r Cons Dispatch show ?thesis by (simp add: run.simps)
        next
          case (Some o')
          from d [OF Some] have e: "extends s o'" .
          show ?thesis
          proof (cases o')
            case (Returned t)
            with r Cons Dispatch Some have "run n B as' t = Some out" by (simp add: run.simps)
            then have "extends t out" by (rule IH(2))
            with e Returned show ?thesis by (auto simp: extends_def)
          next
            case (Thrown t)
            with r Cons Dispatch Some have "out = Thrown t" by (simp add: run.simps)
            with e Thrown show ?thesis by simp
          qed
        qed
      next
        case Throw
        with r Cons show ?thesis by (auto simp: run.simps)
      next
        case (Subscribe e x)
        with r Cons have "run n B as' (effect a s) = Some out" by (simp add: run.simps)
        then have "extends (effect a s) out" by (rule IH(2))
        then show ?thesis by (rule extends_effect)
      next
        case (Unsubscribe e x)
        with r Cons have "run n B as' (effect a s) = Some out" by (simp add: run.simps)
        then have "extends (effect a s) out" by (rule IH(2))
        then show ?thesis by (rule extends_effect)
      next
        case (Once e x)
        with r Cons have "run n B as' (effect a s) = Some out" by (simp add: run.simps)
        then have "extends (effect a s) out" by (rule IH(2))
        then show ?thesis by (rule extends_effect)
      next
        case (Clear e)
        with r Cons have "run n B as' (effect a s) = Some out" by (simp add: run.simps)
        then have "extends (effect a s) out" by (rule IH(2))
        then show ?thesis by (rule extends_effect)
      next
        case ClearAll
        with r Cons have "run n B as' (effect a s) = Some out" by (simp add: run.simps)
        then have "extends (effect a s) out" by (rule IH(2))
        then show ?thesis by (rule extends_effect)
      qed
    qed
  qed
  show "forEach (Suc n) B r i p s = Some out \<longrightarrow> extends s out"
  proof
    assume f: "forEach (Suc n) B r i p s = Some out"
    show "extends s out"
    proof (cases "i < length (set_data s r)")
      case False
      with f show ?thesis by (auto simp: forEach.simps)
    next
      case True
      show ?thesis
      proof (cases "set_data s r ! i")
        case None
        with f True have "forEach n B r (Suc i) p s = Some out" by (simp add: forEach.simps)
        then show ?thesis by (rule IH(3))
      next
        case (Some c)
        show ?thesis
        proof (cases "invoke n B c p s")
          case None
          with f True Some show ?thesis by (simp add: forEach.simps)
        next
          case (Some o')
          from IH(1) [OF Some] have e: "extends s o'" by (auto simp: extends_def)
          show ?thesis
          proof (cases o')
            case (Returned t)
            with f True \<open>set_data s r ! i = Some c\<close> Some
            have "forEach n B r (Suc i) p t = Some out" by (simp add: forEach.simps)
            then have "extends t out" by (rule IH(3))
            with e Returned show ?thesis by (auto simp: extends_def)
          next
            case (Thrown t)
            with f True \<open>set_data s r ! i = Some c\<close> Some
            have "out = Thrown t" by (simp add: forEach.simps)
            with e Thrown show ?thesis by simp
          qed
        qed
      qed
    qed
  qed
qed

lemma log_grows:
  "(\<forall>c p s out. invoke n B c p s = Some out \<longrightarrow> extends (invoked c p s) out) \<and>
   (\<forall>as s out. run n B as s = Some out \<longrightarrow> extends s out) \<and>
   (\<forall>r i p s out. forEach n B r i p s = Some out \<longrightarrow> extends s out)"
proof (induction n)
  case 0
  have "\<And>as s out. run 0 B as s = Some out \<longrightarrow> extends s out"
    subgoal for as s out by (cases as) (auto simp: run.simps)
    done
  then show ?case by (simp add: invoke.simps forEach.simps)
next
  case (Suc n)
  from Suc have a: "\<And>c p s out. invoke n B c p s = Some out \<Longrightarrow> extends (invoked c p s) out"
    and b: "\<And>as s out. run n B as s = Some out \<Longrightarrow> extends s out"
    and c: "\<And>r i p s out. forEach n B r i p s = Some out \<Longrightarrow> extends s out"
    by blast+
  show ?case
  proof (intro conjI allI)
    fix c p s out show "invoke (Suc n) B c p s = Some out \<longrightarrow> extends (invoked c p s) out"
      by (rule log_grows_step (1) [OF a b c])
  next
    fix as s out show "run (Suc n) B as s = Some out \<longrightarrow> extends s out"
      by (rule log_grows_step (2) [OF a b c])
  next
    fix r i p s out show "forEach (Suc n) B r i p s = Some out \<longrightarrow> extends s out"
      by (rule log_grows_step (3) [OF a b c])
  qed
qed

lemma more_fuel_step:
  assumes IH: "\<And>c p s out. invoke n B c p s = Some out \<Longrightarrow> invoke (Suc n) B c p s = Some out"
      "\<And>as s out. run n B as s = Some out \<Longrightarrow> run (Suc n) B as s = Some out"
      "\<And>r i p s out. forEach n B r i p s = Some out \<Longrightarrow> forEach (Suc n) B r i p s = Some out"
  shows "invoke (Suc n) B c p s = Some out \<longrightarrow> invoke (Suc (Suc n)) B c p s = Some out"
    and "run (Suc n) B as s = Some out \<longrightarrow> run (Suc (Suc n)) B as s = Some out"
    and "forEach (Suc n) B r i p s = Some out \<longrightarrow> forEach (Suc (Suc n)) B r i p s = Some out"
proof -
  have d: "\<And>e p s out. dispatch n B e p s = Some out \<Longrightarrow> dispatch (Suc n) B e p s = Some out"
    using IH(3) by (auto simp: dispatch_unfold split: option.splits)
  show "invoke (Suc n) B c p s = Some out \<longrightarrow> invoke (Suc (Suc n)) B c p s = Some out"
  proof (cases c)
    case (Fn f)
    then show ?thesis using IH(2) by (simp add: invoke.simps)
  next
    case (OnceFn i e c')
    show ?thesis
    proof
      assume a: "invoke (Suc n) B c p s = Some out"
      show "invoke (Suc (Suc n)) B c p s = Some out"
      proof (cases "invoke n B c' p (invoked c p s)")
        case None
        with a OnceFn show ?thesis by (simp add: invoke.simps)
      next
        case (Some o')
        from IH(1) [OF Some] have e: "invoke (Suc n) B c' p (invoked c p s) = Some o'" .
        have "invoke (Suc (Suc n)) B c p s = invoke (Suc n) B c p s"
          unfolding OnceFn invoke.simps(3) [of "Suc n"] invoke.simps(3) [of n]
          using e Some unfolding OnceFn by simp
        with a show ?thesis by simp
      qed
    qed
  qed
  show "run (Suc n) B as s = Some out \<longrightarrow> run (Suc (Suc n)) B as s = Some out"
  proof (cases as)
    case Nil
    then show ?thesis by (simp add: run.simps)
  next
    case (Cons a as')
    show ?thesis
    proof
      assume r: "run (Suc n) B as s = Some out"
      show "run (Suc (Suc n)) B as s = Some out"
      proof (cases a)
        case (Dispatch e q)
        show ?thesis
        proof (cases "dispatch n B e q s")
          case None
          with r Cons Dispatch show ?thesis by (simp add: run.simps)
        next
          case (Some o')
          from d [OF Some] have e: "dispatch (Suc n) B e q s = Some o'" .
          show ?thesis
          proof (cases o')
            case (Returned t)
            with r Cons Dispatch Some have "run n B as' t = Some out" by (simp add: run.simps)
            then have "run (Suc n) B as' t = Some out" by (rule IH(2))
            with e Returned Cons Dispatch show ?thesis by (simp add: run.simps)
          next
            case (Thrown t)
            with r Cons Dispatch Some have "out = Thrown t" by (simp add: run.simps)
            with e Thrown Cons Dispatch show ?thesis by (simp add: run.simps)
          qed
        qed
      next
        case Throw
        with r Cons show ?thesis by (simp add: run.simps)
      next
        case (Subscribe e x)
        with r Cons have "run n B as' (subscribe e x s) = Some out" by (simp add: run.simps)
        then have "run (Suc n) B as' (subscribe e x s) = Some out" by (rule IH(2))
        with Cons Subscribe show ?thesis by (simp add: run.simps)
      next
        case (Unsubscribe e x)
        with r Cons have "run n B as' (unsubscribe e x s) = Some out" by (simp add: run.simps)
        then have "run (Suc n) B as' (unsubscribe e x s) = Some out" by (rule IH(2))
        with Cons Unsubscribe show ?thesis by (simp add: run.simps)
      next
        case (Once e x)
        with r Cons have "run n B as' (once e x s) = Some out" by (simp add: run.simps)
        then have "run (Suc n) B as' (once e x s) = Some out" by (rule IH(2))
        with Cons Once show ?thesis by (simp add: run.simps)
      next
        case (Clear e)
        with r Cons have "run n B as' (clear e s) = Some out" by (simp add: run.simps)
        then have "run (Suc n) B as' (clear e s) = Some out" by (rule IH(2))
        with Cons Clear show ?thesis by (simp add: run.simps)
      next
        case ClearAll
        with r Cons have "run n B as' (clearAll s) = Some out" by (simp add: run.simps)
        then have "run (Suc n) B as' (clearAll s) = Some out" by (rule IH(2))
        with Cons ClearAll show ?thesis by (simp add: run.simps)
      qed
    qed
  qed
  show "forEach (Suc n) B r i p s = Some out \<longrightarrow> forEach (Suc (Suc n)) B r i p s = Some out"
  proof
    assume f: "forEach (Suc n) B r i p s = Some out"
    show "forEach (Suc (Suc n)) B r i p s = Some out"
    proof (cases "i < length (set_data s r)")
      case False
      with f show ?thesis by (simp add: forEach.simps)
    next
      case True
      show ?thesis
      proof (cases "set_data s r ! i")
        case None
        with f True have "forEach n B r (Suc i) p s = Some out" by (simp add: forEach.simps)
        then have "forEach (Suc n) B r (Suc i) p s = Some out" by (rule IH(3))
        with True None show ?thesis by (simp add: forEach.simps(2) [of "Suc n"])
      next
        case (Some c)
        note at = this
        show ?thesis
        proof (cases "invoke n B c p s")
          case None
          with f True at show ?thesis by (simp add: forEach.simps)
        next
          case (Some o')
          from IH(1) [OF Some] have e: "invoke (Suc n) B c p s = Some o'" .
          show ?thesis
          proof (cases o')
            case (Returned t)
            with f True at Some
            have "forEach n B r (Suc i) p t = Some out" by (simp add: forEach.simps)
            then have "forEach (Suc n) B r (Suc i) p t = Some out" by (rule IH(3))
            with True at e Returned show ?thesis by (simp add: forEach.simps(2) [of "Suc n"])
          next
            case (Thrown t)
            with f True at Some have "out = Thrown t" by (simp add: forEach.simps)
            with True at e Thrown show ?thesis by (simp add: forEach.simps(2) [of "Suc n"])
          qed
        qed
      qed
    qed
  qed
qed

lemma more_fuel_Suc:
  "(\<forall>c p s out. invoke n B c p s = Some out \<longrightarrow> invoke (Suc n) B c p s = Some out) \<and>
   (\<forall>as s out. run n B as s = Some out \<longrightarrow> run (Suc n) B as s = Some out) \<and>
   (\<forall>r i p s out. forEach n B r i p s = Some out \<longrightarrow> forEach (Suc n) B r i p s = Some out)"
proof (induction n)
  case 0
  have "\<And>as s out. run 0 B as s = Some out \<longrightarrow> run (Suc 0) B as s = Some out"
    subgoal for as s out by (cases as) (auto simp: run.simps)
    done
  then show ?case by (simp add: invoke.simps forEach.simps)
next
  case (Suc n)
  from Suc have a: "\<And>c p s out. invoke n B c p s = Some out \<Longrightarrow> invoke (Suc n) B c p s = Some out"
    and b: "\<And>as s out. run n B as s = Some out \<Longrightarrow> run (Suc n) B as s = Some out"
    and c: "\<And>r i p s out. forEach n B r i p s = Some out \<Longrightarrow> forEach (Suc n) B r i p s = Some out"
    by blast+
  show ?case
  proof (intro conjI allI)
    fix c p s out
    show "invoke (Suc n) B c p s = Some out \<longrightarrow> invoke (Suc (Suc n)) B c p s = Some out"
      by (rule more_fuel_step (1) [OF a b c])
  next
    fix as s out
    show "run (Suc n) B as s = Some out \<longrightarrow> run (Suc (Suc n)) B as s = Some out"
      by (rule more_fuel_step (2) [OF a b c])
  next
    fix r i p s out
    show "forEach (Suc n) B r i p s = Some out \<longrightarrow> forEach (Suc (Suc n)) B r i p s = Some out"
      by (rule more_fuel_step (3) [OF a b c])
  qed
qed

lemma dispatch_more_fuel:
  "dispatch n B K p s = Some out \<Longrightarrow> dispatch (n + k) B K p s = Some out"
proof (induction k)
  case 0
  then show ?case by simp
next
  case (Suc k)
  then have "dispatch (n + k) B K p s = Some out" by simp
  then have "dispatch (Suc (n + k)) B K p s = Some out"
    using more_fuel_Suc [of "n + k" B]
    by (auto simp: dispatch_unfold split: option.splits)
  then show ?case by simp
qed

lemma dispatch_log_grows:
  "dispatch n B K p s = Some out \<Longrightarrow> \<exists>xs. calls (state_of out) = calls s @ xs"
  using log_grows [of n B]
  by (auto simp: dispatch_unfold extends_def split: option.splits)

lemma forEach_log_grows:
  "forEach n B r i p s = Some out \<Longrightarrow> \<exists>xs. calls (state_of out) = calls s @ xs"
  using log_grows [of n B] by (auto simp: extends_def)

lemma invoke_log_grows:
  "invoke n B c p s = Some out \<Longrightarrow> \<exists>xs. calls (state_of out) = calls s @ (c, p) # xs"
  using log_grows [of n B] by (auto simp: extends_def)

lemma forEach_stuck:
  "i < length (set_data s r) \<Longrightarrow> set_data s r ! i = Some c \<Longrightarrow>
   invoke n B c p s = None \<Longrightarrow> forEach (Suc n) B r i p s = None"
  by (simp add: forEach.simps)

lemma pass_reaches_listener:
  assumes w: "wf_bus s" and ms: "members K s = ms1 @ L # ms2"
    and c1: "list_all (calm B K P) ms1"
    and fin: "dispatch n B K P s = Some out"
  shows "\<exists>xs. calls (state_of out) = calls s @ concat (map (trace P) ms1) @ (L, P) # xs"
proof -
  let ?d = "entries K s"
  let ?s1 = "fold (settle B P) ms1 s"
  let ?b = "sum_list (map (\<lambda>c. length (body B P c)) ms1)"
  from ms have sv: "set_values ?d = ms1 @ L # ms2" by (simp add: members_def)
  from split_values [OF sv] obtain i where i: "i < length ?d" and at: "?d ! i = Some L"
    and tk: "set_values (take i ?d) = ms1"
    by blast
  from i have "?d \<noteq> []" by auto
  then obtain r where st: "map_of (stack s) K = Some r"
    using entries_nonempty_stack by blast
  have pre: "\<forall>c. Some c \<in> set (take i ?d) \<longrightarrow> calm B K P c \<and> length (body B P c) \<le> ?b"
  proof (intro allI impI)
    fix c assume "Some c \<in> set (take i ?d)"
    then have "c \<in> set (set_values (take i ?d))" by simp
    then have m: "c \<in> set ms1" unfolding tk .
    then have "length (body B P c) \<le> ?b + 0" by (rule bound_member)
    then have "length (body B P c) \<le> ?b" by simp
    moreover have "calm B K P c" using c1 m by (simp add: list_all_iff)
    ultimately show "calm B K P c \<and> length (body B P c) \<le> ?b" by (intro conjI)
  qed
  have le0: "0 + i \<le> length ?d" using i by simp
  have pre0: "\<forall>c. Some c \<in> set (take i (drop 0 ?d)) \<longrightarrow>
                calm B K P c \<and> length (body B P c) \<le> ?b"
    using pre by simp
  from forEach_calm_steps [OF w st le0 pre0, of n]
  have p1: "forEach (i + Suc (Suc (?b + n))) B r 0 P s = forEach (Suc (Suc (?b + n))) B r i P ?s1"
    and st1: "map_of (stack ?s1) K = Some r"
    and len1: "length (entries K ?s1) = length ?d"
    and drop1: "drop i (entries K ?s1) = drop i ?d"
    by (simp_all add: tk)
  have i1: "i < length (set_data ?s1 r)"
    using i len1 entries_Some [OF st1] by simp
  have "entries K ?s1 ! i = ?d ! i"
    using drop1 i len1 by (metis Cons_nth_drop_Suc list.inject)
  then have at1: "set_data ?s1 r ! i = Some L"
    using at entries_Some [OF st1] by simp
  have fuel: "n + (i + 2 + ?b) = i + Suc (Suc (?b + n))" by simp
  from dispatch_more_fuel [OF fin, of "i + 2 + ?b"]
  have "dispatch (i + Suc (Suc (?b + n))) B K P s = Some out" by (simp only: fuel)
  then have "forEach (i + Suc (Suc (?b + n))) B r 0 P s = Some out"
    using st by (simp add: dispatch_unfold)
  then have f: "forEach (Suc (Suc (?b + n))) B r i P ?s1 = Some out" by (simp only: p1)
  have c1s: "calls ?s1 = calls s @ concat (map (trace P) ms1)" by simp
  show ?thesis
  proof (cases "invoke (Suc (?b + n)) B L P ?s1")
    case None
    from forEach_stuck [OF i1 at1 None] f show ?thesis by simp
  next
    case (Some o')
    from invoke_log_grows [OF Some] obtain ys where
      ys: "calls (state_of o') = calls ?s1 @ (L, P) # ys" by blast
    show ?thesis
    proof (cases o')
      case (Returned t)
      with Some have inv: "invoke (Suc (?b + n)) B L P ?s1 = Some (Returned t)" by simp
      from forEach_call [OF i1 at1 inv] f
      have "forEach (Suc (?b + n)) B r (Suc i) P t = Some out" by simp
      from forEach_log_grows [OF this] obtain zs where
        "calls (state_of out) = calls t @ zs" by blast
      with ys Returned have "calls (state_of out) =
          calls s @ concat (map (trace P) ms1) @ (L, P) # (ys @ zs)"
        by (simp only: c1s state_of.simps append_assoc append_Cons)
      then show ?thesis by blast
    next
      case (Thrown t)
      with Some have inv: "invoke (Suc (?b + n)) B L P ?s1 = Some (Thrown t)" by simp
      from forEach_throw [OF i1 at1 inv] f
      have "out = Thrown t" by simp
      with ys Thrown have "calls (state_of out) =
          calls s @ concat (map (trace P) ms1) @ (L, P) # ys"
        by (simp only: c1s state_of.simps append_assoc)
      then show ?thesis by blast
    qed
  qed
qed

lemma split_at_member:
  "x \<in> set xs \<Longrightarrow>
     xs = takeWhile (\<lambda>y. y \<noteq> x) xs @ x # tl (dropWhile (\<lambda>y. y \<noteq> x) xs)"
  by (induction xs) auto

section \<open>The properties of the specification\<close>

text \<open>
  Claim C1. After \<open>once(K, L)\<close> the closure must unsubscribe itself even when \<open>L\<close>
  throws, so that a later \<open>dispatch(K, P)\<close> does not invoke \<open>L\<close> again. The code calls
  \<open>unsubscribe\<close> after \<open>callable(payload)\<close> with nothing to protect it: when \<open>L\<close>
  throws, the closure stays in the set of \<open>K\<close> and the second dispatch invokes \<open>L\<close>
  a second time.
\<close>

theorem once_listener_that_throws_is_invoked_again:
  "dispatch 4 B_throw K P (once K (Fn 0) init) =
     Some (Thrown \<lparr>stack = [(K, 0)], sets = [[Some (OnceFn 0 K (Fn 0))]], closures = 1,
                   calls = [(OnceFn 0 K (Fn 0), P), (Fn 0, P)]\<rparr>) \<and>
   dispatch 4 B_throw K P
       \<lparr>stack = [(K, 0)], sets = [[Some (OnceFn 0 K (Fn 0))]], closures = 1,
        calls = [(OnceFn 0 K (Fn 0), P), (Fn 0, P)]\<rparr> =
     Some (Thrown \<lparr>stack = [(K, 0)], sets = [[Some (OnceFn 0 K (Fn 0))]], closures = 1,
                   calls = [(OnceFn 0 K (Fn 0), P), (Fn 0, P), (OnceFn 0 K (Fn 0), P), (Fn 0, P)]\<rparr>)"
  by (simp add: B_throw_def bus_eval eval_nat_numeral)




text \<open>
  Claim C3, as stated: after \<open>once(K, L)\<close> with a listener \<open>L\<close> that does not throw,
  the first \<open>dispatch(K, P)\<close> invokes \<open>L\<close> and takes one listener away from \<open>K\<close>,
  and the second does not invoke \<open>L\<close>. It fails for a listener that subscribes itself
  to \<open>K\<close>: the pass reaches the new entry, so the first dispatch invokes \<open>L\<close> twice
  and leaves as many listeners as before, and the second dispatch invokes \<open>L\<close> again.
\<close>

theorem once_listener_resubscribing_itself:
  "set_size (entries SERVER_STARTED (once SERVER_STARTED (Fn 0) (init :: (string \<times> int) list EventBus))) = 1 \<and>
   dispatch 6 B_resub SERVER_STARTED payload7 (once SERVER_STARTED (Fn 0) init) =
     Some (Returned \<lparr>stack = [(SERVER_STARTED, 0)], sets = [[None, Some (Fn 0)]], closures = 1,
        calls = [(OnceFn 0 SERVER_STARTED (Fn 0), payload7), (Fn 0, payload7), (Fn 0, payload7)]\<rparr>) \<and>
   set_size (entries SERVER_STARTED
     \<lparr>stack = [(SERVER_STARTED, 0)], sets = [[None, Some (Fn 0)]], closures = 1,
      calls = [(OnceFn 0 SERVER_STARTED (Fn 0), payload7), (Fn 0, payload7), (Fn 0, payload7)]\<rparr>) = 1 \<and>
   dispatch 6 B_resub SERVER_STARTED payload7
     \<lparr>stack = [(SERVER_STARTED, 0)], sets = [[None, Some (Fn 0)]], closures = 1,
      calls = [(OnceFn 0 SERVER_STARTED (Fn 0), payload7), (Fn 0, payload7), (Fn 0, payload7)]\<rparr> =
     Some (Returned \<lparr>stack = [(SERVER_STARTED, 0)], sets = [[None, Some (Fn 0)]], closures = 1,
        calls = [(OnceFn 0 SERVER_STARTED (Fn 0), payload7), (Fn 0, payload7), (Fn 0, payload7),
                 (Fn 0, payload7)]\<rparr>)"
  by (simp add: B_resub_def bus_eval set_size_def eval_nat_numeral)

text \<open>
  Claim C3, amended. Let \<open>L\<close> be a function of the application whose body is apart
  from \<open>K\<close>, let it not be in the listener set of \<open>K\<close>, and let the members of that
  set be functions of the application that are calm for \<open>K\<close>. After \<open>once(K, L)\<close>
  the first \<open>dispatch(K, P)\<close> returns, invokes \<open>L\<close> exactly once and leaves one
  listener less in the set of \<open>K\<close>; a second \<open>dispatch(K, P)\<close> returns without invoking
  \<open>L\<close>.
\<close>

theorem once_listener_fires_once:
  "wf_bus s \<and> list_all (\<lambda>c. plain c \<and> calm B K P c) (members K s) \<and>
   Fn l \<notin> set (members K s) \<and> list_all (apart K) (B l P) \<longrightarrow>
     (\<exists>N s1 s2.
        (\<forall>n\<ge>N. dispatch n B K P (once K (Fn l) s) = Some (Returned s1) \<and>
                dispatch n B K P s1 = Some (Returned s2)) \<and>
        count_list (drop (length (calls s)) (calls s1)) (Fn l, P) = 1 \<and>
        set_size (entries K s1) + 1 = set_size (entries K (once K (Fn l) s)) \<and>
        (\<forall>P'. (Fn l, P') \<notin> set (drop (length (calls s1)) (calls s2))))"
proof
  assume a: "wf_bus s \<and> list_all (\<lambda>c. plain c \<and> calm B K P c) (members K s) \<and>
   Fn l \<notin> set (members K s) \<and> list_all (apart K) (B l P)"
  let ?W = "OnceFn (closures s) K (Fn l)"
  let ?s0 = "once K (Fn l) s"
  let ?ms = "members K s"
  let ?s1 = "fold (settle B P) (members K ?s0) ?s0"
  let ?s2 = "fold (settle B P) (members K ?s1) ?s1"
  from a have w: "wf_bus s" and pl: "list_all plain ?ms" and cm: "list_all (calm B K P) ?ms"
    and nl: "Fn l \<notin> set ?ms" and bl: "list_all (apart K) (B l P)"
    by (simp_all add: list_all_iff)
  have w0: "wf_bus ?s0" using w by (rule wf_once)
  have nW: "?W \<notin> set ?ms" using pl by (auto simp: list_all_iff)
  have m0: "members K ?s0 = ?ms @ [?W]"
    using w nW by (simp add: members_once del: set_set_values)
  have q0: "list_all (calm B K P) (members K ?s0)" using cm bl by (simp add: m0)
  have w1: "wf_bus ?s1" using w0 by (rule wf_fold_settle)
  have "members K ?s1 = filter (\<lambda>c. \<not> (once_for K c \<and> c \<in> set (members K ?s0))) (members K ?s0)"
    using w0 q0 by (rule members_fold_settle)
  then have m1: "members K ?s1 = ?ms"
    unfolding m0 using filter_once_pass [OF pl, of K "closures s" "Fn l"] by (simp only:)
  have q1: "list_all (calm B K P) (members K ?s1)" using cm by (simp add: m1)
  from w0 q0 obtain N0 where N0: "\<forall>n\<ge>N0. dispatch n B K P ?s0 = Some (Returned ?s1)"
    using dispatch_pass_ex [of ?s0 B K P] by auto
  from w1 q1 obtain N1 where N1: "\<forall>n\<ge>N1. dispatch n B K P ?s1 = Some (Returned ?s2)"
    using dispatch_pass_ex [of ?s1 B K P] by auto
  have N: "\<forall>n\<ge>max N0 N1. dispatch n B K P ?s0 = Some (Returned ?s1) \<and>
                dispatch n B K P ?s1 = Some (Returned ?s2)"
    using N0 N1 by simp
  have tr: "concat (map (trace P) ?ms) = map (\<lambda>c. (c, P)) ?ms"
    using pl by (rule traces_plain)
  have notin: "(Fn l, P) \<notin> set (map (\<lambda>c. (c, P)) ?ms)" using nl by auto
  have c1: "count_list (drop (length (calls s)) (calls ?s1)) (Fn l, P) = 1"
    using notin by (simp add: m0 tr count_list_0_iff)
  have sz: "set_size (entries K ?s1) + 1 = set_size (entries K ?s0)"
    using m0 m1 by (simp add: set_size_def members_def)
  have c2: "\<forall>P'. (Fn l, P') \<notin> set (drop (length (calls ?s1)) (calls ?s2))"
    using nl by (auto simp: m1 tr)
  from N c1 sz c2 show "\<exists>N s1 s2.
        (\<forall>n\<ge>N. dispatch n B K P ?s0 = Some (Returned s1) \<and>
                dispatch n B K P s1 = Some (Returned s2)) \<and>
        count_list (drop (length (calls s)) (calls s1)) (Fn l, P) = 1 \<and>
        set_size (entries K s1) + 1 = set_size (entries K ?s0) \<and>
        (\<forall>P'. (Fn l, P') \<notin> set (drop (length (calls s1)) (calls s2)))"
    by blast
qed

theorem once_listener_fires_once_witness:
  "wf_bus (subscribe SERVER_STARTED (Fn 4) (init :: (string \<times> int) list EventBus)) \<and>
   members SERVER_STARTED (subscribe SERVER_STARTED (Fn 4) (init :: (string \<times> int) list EventBus)) = [Fn 4] \<and>
   calm B_unsub SERVER_STARTED payload7 (Fn 4) \<and>
   (\<exists>N s1 s2.
      (\<forall>n\<ge>N. dispatch n B_unsub SERVER_STARTED payload7
                 (once SERVER_STARTED (Fn 1) (subscribe SERVER_STARTED (Fn 4) init)) = Some (Returned s1) \<and>
              dispatch n B_unsub SERVER_STARTED payload7 s1 = Some (Returned s2)) \<and>
      count_list (calls s1) (Fn 1, payload7) = 1 \<and>
      set_size (entries SERVER_STARTED s1) + 1 =
        set_size (entries SERVER_STARTED (once SERVER_STARTED (Fn 1)
          (subscribe SERVER_STARTED (Fn 4) (init :: (string \<times> int) list EventBus)))) \<and>
      (\<forall>P'. (Fn 1, P') \<notin> set (drop (length (calls s1)) (calls s2))))"
proof -
  let ?s = "subscribe SERVER_STARTED (Fn 4) (init :: (string \<times> int) list EventBus)"
  have s: "?s = \<lparr>stack = [(SERVER_STARTED, 0)], sets = [[Some (Fn 4)]], closures = 0, calls = []\<rparr>"
    by (simp add: bus_eval)
  have w: "wf_bus ?s" unfolding s by (simp add: wf_bus_def)
  have c: "calls ?s = []" unfolding s by simp
  have m: "members SERVER_STARTED ?s = [Fn 4]"
    unfolding s by (simp add: members_def entries_def set_data_def)
  have q: "calm B_unsub SERVER_STARTED payload7 (Fn 4)" by (simp add: B_unsub_def)
  have h: "wf_bus ?s \<and>
     list_all (\<lambda>c. plain c \<and> calm B_unsub SERVER_STARTED payload7 c) (members SERVER_STARTED ?s) \<and>
     Fn 1 \<notin> set (members SERVER_STARTED ?s) \<and> list_all (apart SERVER_STARTED) (B_unsub 1 payload7)"
    using w unfolding m by (simp add: B_unsub_def)
  note T = once_listener_fires_once [of ?s B_unsub SERVER_STARTED payload7 1]
  note R = T [THEN mp, OF h]
  from R have R2: "\<exists>N s1 s2.
      (\<forall>n\<ge>N. dispatch n B_unsub SERVER_STARTED payload7 (once SERVER_STARTED (Fn 1) ?s) = Some (Returned s1) \<and>
              dispatch n B_unsub SERVER_STARTED payload7 s1 = Some (Returned s2)) \<and>
      count_list (calls s1) (Fn 1, payload7) = 1 \<and>
      set_size (entries SERVER_STARTED s1) + 1 =
        set_size (entries SERVER_STARTED (once SERVER_STARTED (Fn 1) ?s)) \<and>
      (\<forall>P'. (Fn 1, P') \<notin> set (drop (length (calls s1)) (calls s2)))"
    unfolding c by simp
  show ?thesis by (intro conjI w m q R2)
qed

text \<open>
  Claim C4, as stated: \<open>dispatch(K, P)\<close> invokes every listener registered for \<open>K\<close>
  exactly once. It fails when a listener changes the set during the pass: here function
  0 unsubscribes function 1, which is registered when the dispatch starts and is never
  invoked.
\<close>

theorem dispatch_skips_listener_removed_in_pass:
  "members USER_CREATED (batch USER_CREATED [Fn 0, Fn 1, Fn 2] (init :: (string \<times> int) list EventBus))
     = [Fn 0, Fn 1, Fn 2] \<and>
   dispatch 6 B_unsub USER_CREATED payload7 (batch USER_CREATED [Fn 0, Fn 1, Fn 2] init) =
     Some (Returned \<lparr>stack = [(USER_CREATED, 0)], sets = [[Some (Fn 0), None, Some (Fn 2)]],
        closures = 0, calls = [(Fn 0, payload7), (Fn 2, payload7)]\<rparr>)"
  by (simp add: B_unsub_def bus_eval eval_nat_numeral)

text \<open>
  Claim C4, amended. \<open>dispatch(K, P)\<close> on a kind without a listener set changes
  nothing. \<open>subscribe\<close> puts a new listener at the end of the set of its kind and leaves
  the set as it is when the listener is already in it, so the members are in the order
  in which they were added. When every member of the set of \<open>K\<close> is calm for \<open>K\<close>,
  \<open>dispatch(K, P)\<close> returns, with enough fuel, and it has called the members one after
  the other in that order, each with \<open>P\<close>: the log grows by the traces of the members.
  If all members are functions of the application, the log grows by exactly one call of
  each. In general a member is called once by the pass and once more by each closure of
  \<open>once\<close> around it that is in the set.
\<close>

theorem dispatch_calls_each_member_in_order:
  "(get K s = None \<longrightarrow> (\<forall>n. dispatch n B K P s = Some (Returned s))) \<and>
   (wf_bus s \<longrightarrow>
      members K (subscribe K c s) =
        (if c \<in> set (members K s) then members K s else members K s @ [c])) \<and>
   (wf_bus s \<and> list_all (calm B K P) (members K s) \<longrightarrow>
      distinct (members K s) \<and>
      (\<exists>N s'. (\<forall>n\<ge>N. dispatch n B K P s = Some (Returned s')) \<and>
         calls s' = calls s @ concat (map (trace P) (members K s)) \<and>
         (list_all plain (members K s) \<longrightarrow>
            calls s' = calls s @ map (\<lambda>c. (c, P)) (members K s)) \<and>
         (\<forall>x\<in>set (members K s).
            count_list (drop (length (calls s)) (calls s')) (x, P) =
              1 + count_list (concat (map callee (members K s))) x)))"
proof (intro conjI impI allI)
  fix n assume "get K s = None"
  then show "dispatch n B K P s = Some (Returned s)"
    by (simp add: dispatch_unfold get_def)
next
  assume "wf_bus s"
  then show "members K (subscribe K c s) =
      (if c \<in> set (members K s) then members K s else members K s @ [c])"
    by (simp add: members_subscribe)
next
  assume "wf_bus s \<and> list_all (calm B K P) (members K s)"
  then show "distinct (members K s)"
    by (simp add: members_def wf_distinct_entries)
next
  assume a: "wf_bus s \<and> list_all (calm B K P) (members K s)"
  let ?ms = "members K s"
  let ?s' = "fold (settle B P) ?ms s"
  from a have d: "distinct ?ms" by (simp add: members_def wf_distinct_entries)
  from a obtain N where N: "\<forall>n\<ge>N. dispatch n B K P s = Some (Returned ?s')"
    using dispatch_pass_ex [of s B K P] by auto
  have c: "calls ?s' = calls s @ concat (map (trace P) ?ms)" by simp
  have p: "list_all plain ?ms \<longrightarrow> calls ?s' = calls s @ map (\<lambda>c. (c, P)) ?ms"
    by (simp add: traces_plain)
  have k: "\<forall>x\<in>set ?ms. count_list (drop (length (calls s)) (calls ?s')) (x, P) =
              1 + count_list (concat (map callee ?ms)) x"
    using a d by (simp add: count_traces [of B K P] count_list_distinct)
  from N c p k show "\<exists>N s'. (\<forall>n\<ge>N. dispatch n B K P s = Some (Returned s')) \<and>
         calls s' = calls s @ concat (map (trace P) ?ms) \<and>
         (list_all plain ?ms \<longrightarrow> calls s' = calls s @ map (\<lambda>c. (c, P)) ?ms) \<and>
         (\<forall>x\<in>set ?ms.
            count_list (drop (length (calls s)) (calls s')) (x, P) =
              1 + count_list (concat (map callee ?ms)) x)"
    by blast
qed

theorem dispatch_calls_each_member_in_order_witness:
  "dispatch 0 B0 USER_CREATED payload7 init = Some (Returned init) \<and>
   wf_bus (once USER_CREATED (Fn 2) (batch USER_CREATED [Fn 4, Fn 1] (init :: (string \<times> int) list EventBus))) \<and>
   members USER_CREATED (once USER_CREATED (Fn 2) (batch USER_CREATED [Fn 4, Fn 1] (init :: (string \<times> int) list EventBus)))
     = [Fn 4, Fn 1, OnceFn 0 USER_CREATED (Fn 2)] \<and>
   list_all (calm B_unsub USER_CREATED payload7) [Fn 4, Fn 1, OnceFn 0 USER_CREATED (Fn 2)] \<and>
   members USER_CREATED (subscribe USER_CREATED (Fn 7)
       (once USER_CREATED (Fn 2) (batch USER_CREATED [Fn 4, Fn 1] (init :: (string \<times> int) list EventBus))))
     = [Fn 4, Fn 1, OnceFn 0 USER_CREATED (Fn 2), Fn 7] \<and>
   (\<exists>N s'. (\<forall>n\<ge>N. dispatch n B_unsub USER_CREATED payload7
                  (once USER_CREATED (Fn 2) (batch USER_CREATED [Fn 4, Fn 1] init)) = Some (Returned s')) \<and>
      calls s' = [(Fn 4, payload7), (Fn 1, payload7),
                  (OnceFn 0 USER_CREATED (Fn 2), payload7), (Fn 2, payload7)])"
proof -
  let ?s = "once USER_CREATED (Fn 2) (batch USER_CREATED [Fn 4, Fn 1] (init :: (string \<times> int) list EventBus))"
  have s: "?s = \<lparr>stack = [(USER_CREATED, 0)],
       sets = [[Some (Fn 4), Some (Fn 1), Some (OnceFn 0 USER_CREATED (Fn 2))]],
       closures = 1, calls = []\<rparr>"
    by (simp add: bus_eval)
  have w: "wf_bus ?s" unfolding s by (simp add: wf_bus_def)
  have m: "members USER_CREATED ?s = [Fn 4, Fn 1, OnceFn 0 USER_CREATED (Fn 2)]"
    unfolding s by (simp add: members_def entries_def set_data_def)
  have q: "list_all (calm B_unsub USER_CREATED payload7) [Fn 4, Fn 1, OnceFn 0 USER_CREATED (Fn 2)]"
    by (simp add: B_unsub_def)
  have g: "get USER_CREATED (init :: (string \<times> int) list EventBus) = None"
    by (simp add: get_def init_def)
  have c: "calls ?s = []" unfolding s by simp
  from dispatch_calls_each_member_in_order [of USER_CREATED init B0 payload7 "Fn 7"] g
  have 1: "dispatch 0 B0 USER_CREATED payload7 init = Some (Returned init)" by blast
  from dispatch_calls_each_member_in_order [of USER_CREATED ?s B_unsub payload7 "Fn 7"] w q
  have 2: "members USER_CREATED (subscribe USER_CREATED (Fn 7) ?s) =
             [Fn 4, Fn 1, OnceFn 0 USER_CREATED (Fn 2), Fn 7]"
    and 3: "\<exists>N s'. (\<forall>n\<ge>N. dispatch n B_unsub USER_CREATED payload7 ?s = Some (Returned s')) \<and>
      calls s' = [(Fn 4, payload7), (Fn 1, payload7),
                  (OnceFn 0 USER_CREATED (Fn 2), payload7), (Fn 2, payload7)]"
    unfolding m c by auto
  from 1 w m q 2 3 show ?thesis by blast
qed

text \<open>
  Claim C5, as stated: after \<open>subscribe(K, L)\<close> twice, \<open>L\<close> is in the set of \<open>K\<close>
  once, so a dispatch invokes \<open>L\<close> exactly once. The second part fails when \<open>K\<close> also
  holds a closure of \<open>once\<close> around \<open>L\<close>: the dispatch invokes \<open>L\<close> twice.
\<close>

theorem subscribed_twice_and_once_is_called_twice:
  "subscribe SERVER_STARTED (Fn 0) (subscribe SERVER_STARTED (Fn 0) (once SERVER_STARTED (Fn 0) init)) =
     \<lparr>stack = [(SERVER_STARTED, 0)],
      sets = [[Some (OnceFn 0 SERVER_STARTED (Fn 0)), Some (Fn 0)]], closures = 1, calls = []\<rparr> \<and>
   dispatch 4 B0 SERVER_STARTED payload7
     \<lparr>stack = [(SERVER_STARTED, 0)],
      sets = [[Some (OnceFn 0 SERVER_STARTED (Fn 0)), Some (Fn 0)]], closures = 1, calls = []\<rparr> =
   Some (Returned \<lparr>stack = [(SERVER_STARTED, 0)], sets = [[None, Some (Fn 0)]], closures = 1,
      calls = [(OnceFn 0 SERVER_STARTED (Fn 0), payload7), (Fn 0, payload7), (Fn 0, payload7)]\<rparr>)"
  by (simp add: B0_def bus_eval eval_nat_numeral)

text \<open>
  Claim C5, amended. The second \<open>subscribe(K, L)\<close> changes nothing: the registry is
  the one that the first call left, so every later dispatch behaves as after one call.
  In a well-formed registry \<open>L\<close> is then in the set of \<open>K\<close> exactly once. If moreover
  the members of that set are calm for \<open>K\<close> and none of them is a closure of \<open>once\<close>
  around \<open>L\<close>, \<open>dispatch(K, P)\<close> returns and has invoked \<open>L\<close> exactly once.
\<close>

theorem subscribe_twice_is_subscribe_once:
  "subscribe K L (subscribe K L s) = subscribe K L s \<and>
   (\<forall>n. dispatch n B K P (subscribe K L (subscribe K L s)) = dispatch n B K P (subscribe K L s)) \<and>
   (wf_bus s \<longrightarrow> count_list (members K (subscribe K L (subscribe K L s))) L = 1) \<and>
   (wf_bus s \<and> list_all (calm B K P) (members K (subscribe K L s)) \<and>
    L \<notin> set (concat (map callee (members K (subscribe K L s)))) \<longrightarrow>
      (\<exists>N s'. (\<forall>n\<ge>N. dispatch n B K P (subscribe K L (subscribe K L s)) = Some (Returned s')) \<and>
               count_list (drop (length (calls s)) (calls s')) (L, P) = 1))"
proof (intro conjI impI allI)
  show "subscribe K L (subscribe K L s) = subscribe K L s" by (rule subscribe_idem)
next
  fix n show "dispatch n B K P (subscribe K L (subscribe K L s)) = dispatch n B K P (subscribe K L s)"
    by (simp only: subscribe_idem)
next
  assume w: "wf_bus s"
  then have "wf_bus (subscribe K L s)" by (rule wf_subscribe)
  then have "distinct (members K (subscribe K L s))"
    by (simp add: members_def wf_distinct_entries)
  moreover have "L \<in> set (members K (subscribe K L s))"
    using w by (simp add: members_subscribe del: set_set_values)
  ultimately show "count_list (members K (subscribe K L (subscribe K L s))) L = 1"
    by (simp only: subscribe_idem count_list_distinct)
next
  assume a: "wf_bus s \<and> list_all (calm B K P) (members K (subscribe K L s)) \<and>
    L \<notin> set (concat (map callee (members K (subscribe K L s))))"
  let ?s1 = "subscribe K L s"
  let ?ms = "members K ?s1"
  let ?s' = "fold (settle B P) ?ms ?s1"
  from a have w: "wf_bus ?s1" by (simp add: wf_subscribe)
  then have d: "distinct ?ms" by (simp add: members_def wf_distinct_entries)
  have i: "L \<in> set ?ms" using a by (simp add: members_subscribe del: set_set_values)
  from a w obtain N where N: "\<forall>n\<ge>N. dispatch n B K P ?s1 = Some (Returned ?s')"
    using dispatch_pass_ex [of ?s1 B K P] by auto
  have "count_list (concat (map (trace P) ?ms)) (L, P) = 1"
    using a d i by (simp add: count_traces [of B K P] count_list_distinct count_list_0_iff)
  then have "count_list (drop (length (calls s)) (calls ?s')) (L, P) = 1"
    by simp
  with N show "\<exists>N s'. (\<forall>n\<ge>N. dispatch n B K P (subscribe K L ?s1) = Some (Returned s')) \<and>
               count_list (drop (length (calls s)) (calls s')) (L, P) = 1"
    unfolding subscribe_idem by blast
qed

theorem subscribe_twice_is_subscribe_once_witness:
  "wf_bus (subscribe USER_UPDATED (Fn 4) (init :: (string \<times> int) list EventBus)) \<and>
   members USER_UPDATED (subscribe USER_UPDATED (Fn 1) (subscribe USER_UPDATED (Fn 4) (init :: (string \<times> int) list EventBus)))
     = [Fn 4, Fn 1] \<and>
   list_all (calm B_unsub USER_UPDATED payload7) [Fn 4, Fn 1] \<and>
   count_list (members USER_UPDATED (subscribe USER_UPDATED (Fn 1) (subscribe USER_UPDATED (Fn 1)
       (subscribe USER_UPDATED (Fn 4) (init :: (string \<times> int) list EventBus))))) (Fn 1) = 1 \<and>
   (\<exists>N s'. (\<forall>n\<ge>N. dispatch n B_unsub USER_UPDATED payload7
        (subscribe USER_UPDATED (Fn 1) (subscribe USER_UPDATED (Fn 1) (subscribe USER_UPDATED (Fn 4) init))) = Some (Returned s')) \<and>
      count_list (calls s') (Fn 1, payload7) = 1)"
proof -
  let ?s = "subscribe USER_UPDATED (Fn 4) (init :: (string \<times> int) list EventBus)"
  have s: "?s = \<lparr>stack = [(USER_UPDATED, 0)], sets = [[Some (Fn 4)]], closures = 0, calls = []\<rparr>"
    by (simp add: bus_eval)
  have w: "wf_bus ?s" unfolding s by (simp add: wf_bus_def)
  have m0: "members USER_UPDATED ?s = [Fn 4]"
    unfolding s by (simp add: members_def entries_def set_data_def)
  have m: "members USER_UPDATED (subscribe USER_UPDATED (Fn 1) ?s) = [Fn 4, Fn 1]"
    using w m0 by (simp add: members_subscribe)
  have q: "list_all (calm B_unsub USER_UPDATED payload7) [Fn 4, Fn 1]"
    by (simp add: B_unsub_def)
  have c: "calls ?s = []" unfolding s by simp
  have h: "wf_bus ?s \<and>
      list_all (calm B_unsub USER_UPDATED payload7) (members USER_UPDATED (subscribe USER_UPDATED (Fn 1) ?s)) \<and>
      Fn 1 \<notin> set (concat (map callee (members USER_UPDATED (subscribe USER_UPDATED (Fn 1) ?s))))"
    using w q unfolding m by simp
  note T = subscribe_twice_is_subscribe_once [of USER_UPDATED "Fn 1" ?s B_unsub payload7]
  from T w
  have 1: "count_list (members USER_UPDATED (subscribe USER_UPDATED (Fn 1) (subscribe USER_UPDATED (Fn 1) ?s))) (Fn 1) = 1"
    by blast
  from T h
  have "\<exists>N s'. (\<forall>n\<ge>N. dispatch n B_unsub USER_UPDATED payload7
        (subscribe USER_UPDATED (Fn 1) (subscribe USER_UPDATED (Fn 1) ?s)) = Some (Returned s')) \<and>
      count_list (drop (length (calls ?s)) (calls s')) (Fn 1, payload7) = 1"
    by blast
  then have 2: "\<exists>N s'. (\<forall>n\<ge>N. dispatch n B_unsub USER_UPDATED payload7
        (subscribe USER_UPDATED (Fn 1) (subscribe USER_UPDATED (Fn 1) ?s)) = Some (Returned s')) \<and>
      count_list (calls s') (Fn 1, payload7) = 1"
    unfolding c by simp
  from w m q 1 2 show ?thesis by blast
qed

text \<open>
  Claim C6. The operations of the registry are total and have no failure of their own.
  Subscribing a listener that is already in the set, unsubscribing one that is not,
  clearing a kind without listeners (with or without an entry) and dispatching to such a
  kind all leave the registry as it is, and the dispatch returns. A dispatch ends with a
  throw only if the body of some listener throws. Every operation takes a well-formed
  registry to a well-formed registry.
\<close>

theorem noop_operations_never_fail:
  "(L \<in> set (members K s) \<longrightarrow> subscribe K L s = s) \<and>
   (L \<notin> set (members K s) \<longrightarrow> unsubscribe K L s = s) \<and>
   (members K s = [] \<longrightarrow>
      clear K s = s \<and> (\<exists>N. \<forall>n\<ge>N. dispatch n B K P s = Some (Returned s))) \<and>
   ((\<forall>f p. Throw \<notin> set (B f p)) \<longrightarrow> (\<forall>n t. dispatch n B K P s \<noteq> Some (Thrown t))) \<and>
   (wf_bus s \<longrightarrow>
      wf_bus (subscribe K L s) \<and> wf_bus (unsubscribe K L s) \<and> wf_bus (once K L s) \<and>
      wf_bus (clear K s) \<and> wf_bus (clearAll s))"
proof (intro conjI impI allI)
  assume "L \<in> set (members K s)" then show "subscribe K L s = s" by (rule subscribe_present)
next
  assume "L \<notin> set (members K s)" then show "unsubscribe K L s = s" by (rule unsubscribe_absent)
next
  assume "members K s = []" then show "clear K s = s" by (rule clear_no_members)
next
  assume "members K s = []"
  then show "\<exists>N. \<forall>n\<ge>N. dispatch n B K P s = Some (Returned s)" by (rule dispatch_no_members_ex)
next
  fix n t assume "\<forall>f p. Throw \<notin> set (B f p)"
  then show "dispatch n B K P s \<noteq> Some (Thrown t)" by (rule dispatch_no_throw)
next
  assume "wf_bus s" then show "wf_bus (subscribe K L s)" by (rule wf_subscribe)
next
  assume "wf_bus s" then show "wf_bus (unsubscribe K L s)" by (rule wf_unsubscribe)
next
  assume "wf_bus s" then show "wf_bus (once K L s)" by (rule wf_once)
next
  assume "wf_bus s" then show "wf_bus (clear K s)" by (rule wf_clear)
next
  assume "wf_bus s" then show "wf_bus (clearAll s)" by (rule wf_clearAll)
qed

theorem noop_operations_never_fail_witness:
  "subscribe LOG (Fn 1) (subscribe LOG (Fn 1) (init :: (string \<times> int) list EventBus))
     = subscribe LOG (Fn 1) init \<and>
   unsubscribe LOG (Fn 2) (subscribe LOG (Fn 1) (init :: (string \<times> int) list EventBus))
     = subscribe LOG (Fn 1) init \<and>
   clear USER_CREATED (subscribe LOG (Fn 1) (init :: (string \<times> int) list EventBus))
     = subscribe LOG (Fn 1) init \<and>
   (\<exists>N. \<forall>n\<ge>N. dispatch n B_throw USER_CREATED payload7 (subscribe LOG (Fn 1) init)
      = Some (Returned (subscribe LOG (Fn 1) init))) \<and>
   clear LOG (clear LOG (subscribe LOG (Fn 1) (init :: (string \<times> int) list EventBus)))
     = clear LOG (subscribe LOG (Fn 1) init) \<and>
   (\<exists>N. \<forall>n\<ge>N. dispatch n B_throw LOG payload7 (clear LOG (subscribe LOG (Fn 1) init))
      = Some (Returned (clear LOG (subscribe LOG (Fn 1) init)))) \<and>
   (\<forall>n t. dispatch n B0 LOG payload7 (subscribe LOG (Fn 1) init) \<noteq> Some (Thrown t))"
proof -
  let ?s = "subscribe LOG (Fn 1) (init :: (string \<times> int) list EventBus)"
  have s: "?s = \<lparr>stack = [(LOG, 0)], sets = [[Some (Fn 1)]], closures = 0, calls = []\<rparr>"
    by (simp add: bus_eval)
  have m: "members LOG ?s = [Fn 1]"
    unfolding s by (simp add: members_def entries_def set_data_def)
  have mu: "members USER_CREATED ?s = []"
    unfolding s by (simp add: members_def entries_def)
  have mc: "members LOG (clear LOG ?s) = []"
    unfolding s by (simp add: bus_eval)
  have b: "\<forall>f p. Throw \<notin> set (B0 f p)" by (simp add: B0_def)
  note T1 = noop_operations_never_fail [of "Fn 1" LOG ?s B0 payload7]
  note T2 = noop_operations_never_fail [of "Fn 2" LOG ?s B0 payload7]
  note T3 = noop_operations_never_fail [of "Fn 1" USER_CREATED ?s B_throw payload7]
  note T4 = noop_operations_never_fail [of "Fn 1" LOG "clear LOG ?s" B_throw payload7]
  have 1: "subscribe LOG (Fn 1) ?s = ?s" using T1 m by simp
  have 2: "unsubscribe LOG (Fn 2) ?s = ?s" using T2 m by simp
  have 3: "clear USER_CREATED ?s = ?s"
    and 4: "\<exists>N. \<forall>n\<ge>N. dispatch n B_throw USER_CREATED payload7 ?s = Some (Returned ?s)"
    using T3 mu by blast+
  have 5: "clear LOG (clear LOG ?s) = clear LOG ?s"
    and 6: "\<exists>N. \<forall>n\<ge>N. dispatch n B_throw LOG payload7 (clear LOG ?s)
               = Some (Returned (clear LOG ?s))"
    using T4 mc by blast+
  have 7: "\<forall>n t. dispatch n B0 LOG payload7 ?s \<noteq> Some (Thrown t)"
    using T1 b by blast
  from 1 2 3 4 5 6 7 show ?thesis by blast
qed

text \<open>
  Claim C7, as stated: after \<open>multiple([K1, K2], L)\<close> and \<open>unsubscribe(K1, L)\<close>,
  \<open>dispatch(K2, P)\<close> still invokes \<open>L\<close>. It fails when a listener registered for
  \<open>K2\<close> before \<open>L\<close> throws: the pass ends there and never reaches \<open>L\<close>.
\<close>

theorem listener_of_multiple_not_reached_after_throw:
  "unsubscribe SERVER_STARTED (Fn 1)
     (multiple [SERVER_STARTED, SERVER_STOPPED] (Fn 1) (subscribe SERVER_STOPPED (Fn 0) init)) =
     \<lparr>stack = [(SERVER_STOPPED, 0), (SERVER_STARTED, 1)],
      sets = [[Some (Fn 0), Some (Fn 1)], [None]], closures = 0, calls = []\<rparr> \<and>
   dispatch 4 B_first_throws SERVER_STOPPED payload7
     \<lparr>stack = [(SERVER_STOPPED, 0), (SERVER_STARTED, 1)],
      sets = [[Some (Fn 0), Some (Fn 1)], [None]], closures = 0, calls = []\<rparr> =
   Some (Thrown \<lparr>stack = [(SERVER_STOPPED, 0), (SERVER_STARTED, 1)],
      sets = [[Some (Fn 0), Some (Fn 1)], [None]], closures = 0, calls = [(Fn 0, payload7)]\<rparr>)"
  by (simp add: B_first_throws_def bus_eval eval_nat_numeral)

text \<open>
  Claim C7, amended. In a well-formed registry, after \<open>multiple(kinds, L)\<close> and
  \<open>unsubscribe(K1, L)\<close> the set of \<open>K1\<close> holds the listeners it held before, without
  \<open>L\<close>, and \<open>L\<close> is still in the set of every other kind \<open>K\<close> of \<open>kinds\<close>. When
  the listeners that come before \<open>L\<close> in the set of such a \<open>K\<close> are calm for \<open>K\<close>,
  every \<open>dispatch(K, P)\<close> that ends, by a return or by a throw, has invoked \<open>L\<close> with
  \<open>P\<close>. When all the members of that set are calm for \<open>K\<close>, \<open>dispatch(K, P)\<close>
  returns.
\<close>

theorem multiple_tracks_each_kind:
  "wf_bus s \<longrightarrow>
     members K1 (unsubscribe K1 L (multiple kinds L s)) = removeAll L (members K1 s) \<and>
     (K \<in> set kinds \<and> K \<noteq> K1 \<longrightarrow>
        L \<in> set (members K (unsubscribe K1 L (multiple kinds L s))) \<and>
        (list_all (calm B K P)
           (takeWhile (\<lambda>c. c \<noteq> L) (members K (unsubscribe K1 L (multiple kinds L s)))) \<longrightarrow>
           (\<forall>n out. dispatch n B K P (unsubscribe K1 L (multiple kinds L s)) = Some out \<longrightarrow>
                (L, P) \<in> set (drop (length (calls s)) (calls (state_of out))))) \<and>
        (list_all (calm B K P) (members K (unsubscribe K1 L (multiple kinds L s))) \<longrightarrow>
           (\<exists>N s'. (\<forall>n\<ge>N. dispatch n B K P (unsubscribe K1 L (multiple kinds L s))
                         = Some (Returned s')) \<and>
                    (L, P) \<in> set (drop (length (calls s)) (calls s')))))"
proof (intro impI conjI)
  assume w: "wf_bus s"
  then have wm: "wf_bus (multiple kinds L s)" by (rule wf_multiple)
  show "members K1 (unsubscribe K1 L (multiple kinds L s)) = removeAll L (members K1 s)"
    using w wm by (simp add: members_unsubscribe members_multiple del: set_set_values)
next
  assume w: "wf_bus s" and k: "K \<in> set kinds \<and> K \<noteq> K1"
  then have wm: "wf_bus (multiple kinds L s)" by (simp add: wf_multiple)
  show "L \<in> set (members K (unsubscribe K1 L (multiple kinds L s)))"
    using w wm k by (simp add: members_unsubscribe members_multiple del: set_set_values)
next
  assume w: "wf_bus s" and k: "K \<in> set kinds \<and> K \<noteq> K1"
    and q: "list_all (calm B K P)
           (takeWhile (\<lambda>c. c \<noteq> L) (members K (unsubscribe K1 L (multiple kinds L s))))"
  let ?s1 = "unsubscribe K1 L (multiple kinds L s)"
  let ?ms = "members K ?s1"
  have wm: "wf_bus (multiple kinds L s)" using w by (rule wf_multiple)
  then have w1: "wf_bus ?s1" by (rule wf_unsubscribe)
  have i: "L \<in> set ?ms"
    using w wm k by (simp add: members_unsubscribe members_multiple del: set_set_values)
  then have sp: "?ms = takeWhile (\<lambda>c. c \<noteq> L) ?ms @ L # tl (dropWhile (\<lambda>c. c \<noteq> L) ?ms)"
    by (rule split_at_member)
  show "\<forall>n out. dispatch n B K P ?s1 = Some out \<longrightarrow>
          (L, P) \<in> set (drop (length (calls s)) (calls (state_of out)))"
  proof (intro allI impI)
    fix n out assume fin: "dispatch n B K P ?s1 = Some out"
    from pass_reaches_listener [OF w1 sp q fin] obtain xs where
      "calls (state_of out) =
         calls ?s1 @ concat (map (trace P) (takeWhile (\<lambda>c. c \<noteq> L) ?ms)) @ (L, P) # xs"
      by blast
    then show "(L, P) \<in> set (drop (length (calls s)) (calls (state_of out)))" by simp
  qed
next
  assume w: "wf_bus s" and k: "K \<in> set kinds \<and> K \<noteq> K1"
    and q: "list_all (calm B K P) (members K (unsubscribe K1 L (multiple kinds L s)))"
  let ?s1 = "unsubscribe K1 L (multiple kinds L s)"
  let ?ms = "members K ?s1"
  let ?s' = "fold (settle B P) ?ms ?s1"
  have wm: "wf_bus (multiple kinds L s)" using w by (rule wf_multiple)
  then have w1: "wf_bus ?s1" by (rule wf_unsubscribe)
  have i: "L \<in> set ?ms"
    using w wm k by (simp add: members_unsubscribe members_multiple del: set_set_values)
  from w1 q obtain N where N: "\<forall>n\<ge>N. dispatch n B K P ?s1 = Some (Returned ?s')"
    using dispatch_pass_ex [of ?s1 B K P] by auto
  have "(L, P) \<in> set (concat (map (trace P) ?ms))"
    using i trace_head [of L P] by auto
  then have "(L, P) \<in> set (drop (length (calls s)) (calls ?s'))" by simp
  with N show "\<exists>N s'. (\<forall>n\<ge>N. dispatch n B K P ?s1 = Some (Returned s')) \<and>
                    (L, P) \<in> set (drop (length (calls s)) (calls s'))"
    by blast
qed

theorem multiple_tracks_each_kind_witness:
  "wf_bus (subscribe SERVER_STARTED (Fn 2) (subscribe SERVER_STOPPED (Fn 4) (init :: (string \<times> int) list EventBus))) \<and>
   members SERVER_STARTED (unsubscribe SERVER_STARTED (Fn 1)
      (multiple [SERVER_STARTED, SERVER_STOPPED] (Fn 1)
        (subscribe SERVER_STARTED (Fn 2) (subscribe SERVER_STOPPED (Fn 4) (init :: (string \<times> int) list EventBus)))))
     = [Fn 2] \<and>
   members SERVER_STOPPED (unsubscribe SERVER_STARTED (Fn 1)
      (multiple [SERVER_STARTED, SERVER_STOPPED] (Fn 1)
        (subscribe SERVER_STARTED (Fn 2) (subscribe SERVER_STOPPED (Fn 4) (init :: (string \<times> int) list EventBus)))))
     = [Fn 4, Fn 1] \<and>
   dispatch 4 B_unsub SERVER_STOPPED payload7
        (unsubscribe SERVER_STARTED (Fn 1)
          (multiple [SERVER_STARTED, SERVER_STOPPED] (Fn 1)
            (subscribe SERVER_STARTED (Fn 2) (subscribe SERVER_STOPPED (Fn 4) init))))
     = Some (Returned \<lparr>stack = [(SERVER_STOPPED, 0), (SERVER_STARTED, 1), (LOG, 2)],
          sets = [[Some (Fn 4), Some (Fn 1)], [Some (Fn 2), None], [Some (Fn 5)]],
          closures = 0, calls = [(Fn 4, payload7), (Fn 1, payload7)]\<rparr>) \<and>
   (Fn 1, payload7) \<in> set (calls (state_of (Returned
        \<lparr>stack = [(SERVER_STOPPED, 0), (SERVER_STARTED, 1), (LOG, 2)],
          sets = [[Some (Fn 4), Some (Fn 1)], [Some (Fn 2), None], [Some (Fn 5)]],
          closures = 0, calls = [(Fn 4, payload7), (Fn 1, payload7)]\<rparr>))) \<and>
   (\<exists>N s'. (\<forall>n\<ge>N. dispatch n B_unsub SERVER_STOPPED payload7
        (unsubscribe SERVER_STARTED (Fn 1)
          (multiple [SERVER_STARTED, SERVER_STOPPED] (Fn 1)
            (subscribe SERVER_STARTED (Fn 2) (subscribe SERVER_STOPPED (Fn 4) init))))
        = Some (Returned s')) \<and>
      (Fn 1, payload7) \<in> set (calls s'))"
proof -
  let ?s = "subscribe SERVER_STARTED (Fn 2) (subscribe SERVER_STOPPED (Fn 4) (init :: (string \<times> int) list EventBus))"
  let ?t = "unsubscribe SERVER_STARTED (Fn 1) (multiple [SERVER_STARTED, SERVER_STOPPED] (Fn 1) ?s)"
  let ?u = "\<lparr>stack = [(SERVER_STOPPED, 0), (SERVER_STARTED, 1), (LOG, 2)],
          sets = [[Some (Fn 4), Some (Fn 1)], [Some (Fn 2), None], [Some (Fn 5)]],
          closures = 0, calls = [(Fn 4, payload7), (Fn 1, payload7)]\<rparr>"
  have s: "?s = \<lparr>stack = [(SERVER_STOPPED, 0), (SERVER_STARTED, 1)],
      sets = [[Some (Fn 4)], [Some (Fn 2)]], closures = 0, calls = []\<rparr>"
    by (simp add: bus_eval)
  have w: "wf_bus ?s" unfolding s by (simp add: wf_bus_def)
  have c: "calls ?s = []" unfolding s by simp
  have m1: "members SERVER_STARTED ?s = [Fn 2]" and m2: "members SERVER_STOPPED ?s = [Fn 4]"
    unfolding s by (simp_all add: members_def entries_def set_data_def)
  have t2: "members SERVER_STOPPED ?t = [Fn 4, Fn 1]"
    using w m2 by (simp add: members_unsubscribe members_multiple wf_multiple)
  have q: "list_all (calm B_unsub SERVER_STOPPED payload7) (members SERVER_STOPPED ?t)"
    unfolding t2 by (simp add: B_unsub_def)
  have q0: "list_all (calm B_unsub SERVER_STOPPED payload7)
              (takeWhile (\<lambda>c. c \<noteq> Fn 1) (members SERVER_STOPPED ?t))"
    unfolding t2 by (simp add: B_unsub_def)
  have k: "SERVER_STOPPED \<in> set [SERVER_STARTED, SERVER_STOPPED] \<and> SERVER_STOPPED \<noteq> SERVER_STARTED"
    by simp
  have d: "dispatch 4 B_unsub SERVER_STOPPED payload7 ?t = Some (Returned ?u)"
    unfolding s by (simp add: B_unsub_def bus_eval eval_nat_numeral)
  note T = multiple_tracks_each_kind [of ?s SERVER_STARTED "Fn 1"
      "[SERVER_STARTED, SERVER_STOPPED]" SERVER_STOPPED B_unsub payload7]
  from T w have "members SERVER_STARTED ?t = removeAll (Fn 1) (members SERVER_STARTED ?s)"
    by blast
  then have 1: "members SERVER_STARTED ?t = [Fn 2]" unfolding m1 by simp
  from T w k q0 have "\<forall>n out. dispatch n B_unsub SERVER_STOPPED payload7 ?t = Some out \<longrightarrow>
      (Fn 1, payload7) \<in> set (drop (length (calls ?s)) (calls (state_of out)))"
    by blast
  with d have "(Fn 1, payload7) \<in> set (drop (length (calls ?s)) (calls (state_of (Returned ?u))))"
    by blast
  then have 3: "(Fn 1, payload7) \<in> set (calls (state_of (Returned ?u)))"
    unfolding c by simp
  from T w k q have "\<exists>N s'. (\<forall>n\<ge>N. dispatch n B_unsub SERVER_STOPPED payload7 ?t
        = Some (Returned s')) \<and> (Fn 1, payload7) \<in> set (drop (length (calls ?s)) (calls s'))"
    by blast
  then have 2: "\<exists>N s'. (\<forall>n\<ge>N. dispatch n B_unsub SERVER_STOPPED payload7 ?t
        = Some (Returned s')) \<and> (Fn 1, payload7) \<in> set (calls s')"
    unfolding c by simp
  from w 1 t2 d 3 2 show ?thesis by (intro conjI)
qed

text \<open>
  Claim C8. For a kind \<open>K\<close> with an entry, \<open>clear(K)\<close> empties the listener set and
  keeps the entry: \<open>get(K)\<close> is the empty set, \<open>events\<close> is unchanged, and a dispatch
  returns the registry as it is, so that no listener is invoked. After
  \<open>batch(K, [L1, L2, L3])\<close> and \<open>clear(K)\<close>, from any registry, \<open>K\<close> is in
  \<open>events\<close>, its set is empty, no listener has been invoked and \<open>dispatch(K, P)\<close>
  invokes none.
\<close>

theorem clear_keeps_the_entry:
  "(get K s \<noteq> None \<longrightarrow>
      get K (clear K s) = Some [] \<and> events (clear K s) = events s \<and>
      (\<exists>N. \<forall>n\<ge>N. dispatch n B K P (clear K s) = Some (Returned (clear K s)))) \<and>
   K \<in> set (events (clear K (batch K [L1, L2, L3] s))) \<and>
   get K (clear K (batch K [L1, L2, L3] s)) = Some [] \<and>
   calls (clear K (batch K [L1, L2, L3] s)) = calls s \<and>
   (\<exists>N. \<forall>n\<ge>N. dispatch n B K P (clear K (batch K [L1, L2, L3] s)) =
      Some (Returned (clear K (batch K [L1, L2, L3] s))))"
proof (intro conjI impI)
  assume "get K s \<noteq> None"
  then have "map_of (stack s) K \<noteq> None" by (simp add: get_def)
  then show "get K (clear K s) = Some []"
    by (simp add: get_members members_clear_same)
next
  show "events (clear K s) = events s" by (simp add: events_def)
next
  show "\<exists>N. \<forall>n\<ge>N. dispatch n B K P (clear K s) = Some (Returned (clear K s))"
    by (rule clear_then_dispatch)
next
  show "K \<in> set (events (clear K (batch K [L1, L2, L3] s)))"
    using entry_batch [of K L1 "[L2, L3]" s] by (simp add: events_entry)
next
  show "get K (clear K (batch K [L1, L2, L3] s)) = Some []"
    using entry_batch [of K L1 "[L2, L3]" s] by (simp add: get_members members_clear_same)
next
  show "calls (clear K (batch K [L1, L2, L3] s)) = calls s" by simp
next
  show "\<exists>N. \<forall>n\<ge>N. dispatch n B K P (clear K (batch K [L1, L2, L3] s)) =
      Some (Returned (clear K (batch K [L1, L2, L3] s)))"
    by (rule clear_then_dispatch)
qed

theorem clear_keeps_the_entry_witness:
  "get ROLE_CREATED (batch ROLE_CREATED [Fn 1, Fn 2, Fn 3] (init :: (string \<times> int) list EventBus))
     = Some [Fn 1, Fn 2, Fn 3] \<and>
   get ROLE_CREATED (clear ROLE_CREATED
      (batch ROLE_CREATED [Fn 1, Fn 2, Fn 3] (init :: (string \<times> int) list EventBus))) = Some [] \<and>
   events (clear ROLE_CREATED
      (batch ROLE_CREATED [Fn 1, Fn 2, Fn 3] (init :: (string \<times> int) list EventBus)))
     = [ROLE_CREATED] \<and>
   (\<exists>N. \<forall>n\<ge>N. dispatch n B_throw ROLE_CREATED payload7
        (clear ROLE_CREATED (batch ROLE_CREATED [Fn 1, Fn 2, Fn 3] init)) =
      Some (Returned (clear ROLE_CREATED (batch ROLE_CREATED [Fn 1, Fn 2, Fn 3] init))))"
proof -
  let ?s = "batch ROLE_CREATED [Fn 1, Fn 2, Fn 3] (init :: (string \<times> int) list EventBus)"
  have s: "?s = \<lparr>stack = [(ROLE_CREATED, 0)],
      sets = [[Some (Fn 1), Some (Fn 2), Some (Fn 3)]], closures = 0, calls = []\<rparr>"
    by (simp add: bus_eval)
  have g: "get ROLE_CREATED ?s = Some [Fn 1, Fn 2, Fn 3]"
    unfolding s by (simp add: get_def set_data_def)
  have e: "events ?s = [ROLE_CREATED]" unfolding s by (simp add: events_def)
  note T = clear_keeps_the_entry [of ROLE_CREATED ?s B_throw payload7 "Fn 1" "Fn 2" "Fn 3"]
  have ne: "get ROLE_CREATED ?s \<noteq> None" using g by simp
  from T ne have 1: "get ROLE_CREATED (clear ROLE_CREATED ?s) = Some []"
    and 2: "events (clear ROLE_CREATED ?s) = events ?s"
    and 3: "\<exists>N. \<forall>n\<ge>N. dispatch n B_throw ROLE_CREATED payload7 (clear ROLE_CREATED ?s) =
      Some (Returned (clear ROLE_CREATED ?s))"
    by blast+
  from g 1 2 3 e show ?thesis by simp
qed

text \<open>
  Claim C9, as stated: after \<open>once(K, L)\<close> twice, one \<open>dispatch(K, P)\<close> invokes \<open>L\<close>
  twice. It fails when \<open>L\<close> throws: the throw of the first invocation ends the pass,
  and \<open>L\<close> has been invoked once.
\<close>

theorem once_twice_throwing_listener_called_once:
  "dispatch 4 B_throw SERVER_STARTED payload7
     (once SERVER_STARTED (Fn 0) (once SERVER_STARTED (Fn 0) init)) =
   Some (Thrown \<lparr>stack = [(SERVER_STARTED, 0)],
      sets = [[Some (OnceFn 0 SERVER_STARTED (Fn 0)), Some (OnceFn 1 SERVER_STARTED (Fn 0))]],
      closures = 2,
      calls = [(OnceFn 0 SERVER_STARTED (Fn 0), payload7), (Fn 0, payload7)]\<rparr>)"
  by (simp add: B_throw_def bus_eval eval_nat_numeral)

text \<open>
  Claim C9, amended. In a well-formed registry in which the closures of \<open>once\<close> in the
  set of \<open>K\<close> were built by earlier calls of \<open>once\<close>, two calls of \<open>once(K, L)\<close>, for a
  function \<open>L\<close> of the application, put two distinct closures at the end of the set of
  \<open>K\<close>. When moreover the body of \<open>L\<close> is apart from \<open>K\<close> and the earlier members
  are calm for \<open>K\<close>, one \<open>dispatch(K, P)\<close> returns, and after the earlier members it
  has invoked the first closure, \<open>L\<close>, the second closure and \<open>L\<close> again.
\<close>

theorem once_twice_adds_two_closures:
  "wf_bus s \<and> list_all (built_before (closures s)) (members K s) \<longrightarrow>
     members K (once K (Fn l) (once K (Fn l) s)) =
       members K s @ [OnceFn (closures s) K (Fn l), OnceFn (Suc (closures s)) K (Fn l)] \<and>
     OnceFn (closures s) K (Fn l) \<noteq> OnceFn (Suc (closures s)) K (Fn l) \<and>
     (list_all (calm B K P) (members K s) \<and> list_all (apart K) (B l P) \<longrightarrow>
        (\<exists>N s'. (\<forall>n\<ge>N. dispatch n B K P (once K (Fn l) (once K (Fn l) s)) = Some (Returned s')) \<and>
           calls s' = calls s @ concat (map (trace P) (members K s)) @
             [(OnceFn (closures s) K (Fn l), P), (Fn l, P),
              (OnceFn (Suc (closures s)) K (Fn l), P), (Fn l, P)]))"
proof (intro impI conjI)
  assume a: "wf_bus s \<and> list_all (built_before (closures s)) (members K s)"
  then have w1: "wf_bus (once K (Fn l) s)" by (simp add: wf_once)
  have f0: "OnceFn (closures s) K (Fn l) \<notin> set (members K s)"
    using a by (intro built_before_fresh [of "closures s"]) simp_all
  have f1: "OnceFn (Suc (closures s)) K (Fn l) \<notin> set (members K s)"
    using a by (intro built_before_fresh [of "closures s"]) simp_all
  show m: "members K (once K (Fn l) (once K (Fn l) s)) =
       members K s @ [OnceFn (closures s) K (Fn l), OnceFn (Suc (closures s)) K (Fn l)]"
    using a w1 f0 f1 by (simp add: members_once del: set_set_values)
  show "OnceFn (closures s) K (Fn l) \<noteq> OnceFn (Suc (closures s)) K (Fn l)" by simp
  assume q: "list_all (calm B K P) (members K s) \<and> list_all (apart K) (B l P)"
  let ?s2 = "once K (Fn l) (once K (Fn l) s)"
  let ?s' = "fold (settle B P) (members K ?s2) ?s2"
  have w2: "wf_bus ?s2" using w1 by (rule wf_once)
  have q2: "list_all (calm B K P) (members K ?s2)" using q by (simp add: m)
  from w2 q2 obtain N where N: "\<forall>n\<ge>N. dispatch n B K P ?s2 = Some (Returned ?s')"
    using dispatch_pass_ex [of ?s2 B K P] by auto
  have "calls ?s' = calls s @ concat (map (trace P) (members K s)) @
             [(OnceFn (closures s) K (Fn l), P), (Fn l, P),
              (OnceFn (Suc (closures s)) K (Fn l), P), (Fn l, P)]"
    by (simp add: m)
  with N show "\<exists>N s'. (\<forall>n\<ge>N. dispatch n B K P ?s2 = Some (Returned s')) \<and>
           calls s' = calls s @ concat (map (trace P) (members K s)) @
             [(OnceFn (closures s) K (Fn l), P), (Fn l, P),
              (OnceFn (Suc (closures s)) K (Fn l), P), (Fn l, P)]"
    by blast
qed

theorem once_twice_adds_two_closures_witness:
  "wf_bus (once SERVER_STARTED (Fn 4) (init :: (string \<times> int) list EventBus)) \<and>
   members SERVER_STARTED (once SERVER_STARTED (Fn 4) (init :: (string \<times> int) list EventBus))
     = [OnceFn 0 SERVER_STARTED (Fn 4)] \<and>
   members SERVER_STARTED (once SERVER_STARTED (Fn 1) (once SERVER_STARTED (Fn 1)
       (once SERVER_STARTED (Fn 4) (init :: (string \<times> int) list EventBus)))) =
     [OnceFn 0 SERVER_STARTED (Fn 4), OnceFn 1 SERVER_STARTED (Fn 1), OnceFn 2 SERVER_STARTED (Fn 1)] \<and>
   (\<exists>N s'. (\<forall>n\<ge>N. dispatch n B_unsub SERVER_STARTED payload7
        (once SERVER_STARTED (Fn 1) (once SERVER_STARTED (Fn 1) (once SERVER_STARTED (Fn 4) init)))
        = Some (Returned s')) \<and>
      calls s' = [(OnceFn 0 SERVER_STARTED (Fn 4), payload7), (Fn 4, payload7),
                  (OnceFn 1 SERVER_STARTED (Fn 1), payload7), (Fn 1, payload7),
                  (OnceFn 2 SERVER_STARTED (Fn 1), payload7), (Fn 1, payload7)])"
proof -
  let ?s = "once SERVER_STARTED (Fn 4) (init :: (string \<times> int) list EventBus)"
  have s: "?s = \<lparr>stack = [(SERVER_STARTED, 0)],
      sets = [[Some (OnceFn 0 SERVER_STARTED (Fn 4))]], closures = 1, calls = []\<rparr>"
    by (simp add: bus_eval)
  have w: "wf_bus ?s" unfolding s by (simp add: wf_bus_def)
  have c: "calls ?s = []" and n: "closures ?s = 1" unfolding s by simp_all
  have m: "members SERVER_STARTED ?s = [OnceFn 0 SERVER_STARTED (Fn 4)]"
    unfolding s by (simp add: members_def entries_def set_data_def)
  have h: "wf_bus ?s \<and> list_all (built_before (closures ?s)) (members SERVER_STARTED ?s)"
    using w unfolding m n by simp
  have q: "list_all (calm B_unsub SERVER_STARTED payload7) (members SERVER_STARTED ?s) \<and>
      list_all (apart SERVER_STARTED) (B_unsub 1 payload7)"
    unfolding m by (simp add: B_unsub_def)
  note T = once_twice_adds_two_closures [of ?s SERVER_STARTED 1 B_unsub payload7]
  from T h have "members SERVER_STARTED (once SERVER_STARTED (Fn 1) (once SERVER_STARTED (Fn 1) ?s)) =
       members SERVER_STARTED ?s @ [OnceFn (closures ?s) SERVER_STARTED (Fn 1),
          OnceFn (Suc (closures ?s)) SERVER_STARTED (Fn 1)]"
    by blast
  then have 1: "members SERVER_STARTED (once SERVER_STARTED (Fn 1) (once SERVER_STARTED (Fn 1) ?s)) =
     [OnceFn 0 SERVER_STARTED (Fn 4), OnceFn 1 SERVER_STARTED (Fn 1), OnceFn 2 SERVER_STARTED (Fn 1)]"
    unfolding m n by (simp add: numeral_2_eq_2)
  from T h q have "\<exists>N s'. (\<forall>n\<ge>N. dispatch n B_unsub SERVER_STARTED payload7
        (once SERVER_STARTED (Fn 1) (once SERVER_STARTED (Fn 1) ?s)) = Some (Returned s')) \<and>
      calls s' = calls ?s @ concat (map (trace payload7) (members SERVER_STARTED ?s)) @
             [(OnceFn (closures ?s) SERVER_STARTED (Fn 1), payload7), (Fn 1, payload7),
              (OnceFn (Suc (closures ?s)) SERVER_STARTED (Fn 1), payload7), (Fn 1, payload7)]"
    by blast
  then have 2: "\<exists>N s'. (\<forall>n\<ge>N. dispatch n B_unsub SERVER_STARTED payload7
        (once SERVER_STARTED (Fn 1) (once SERVER_STARTED (Fn 1) ?s)) = Some (Returned s')) \<and>
      calls s' = [(OnceFn 0 SERVER_STARTED (Fn 4), payload7), (Fn 4, payload7),
                  (OnceFn 1 SERVER_STARTED (Fn 1), payload7), (Fn 1, payload7),
                  (OnceFn 2 SERVER_STARTED (Fn 1), payload7), (Fn 1, payload7)]"
    unfolding m n c by (simp add: numeral_2_eq_2)
  from w m 1 2 show ?thesis by blast
qed

text \<open>
  Claim C10, as stated: a listener that a listener subscribes to \<open>K\<close> during
  \<open>dispatch(K, P)\<close> is invoked in the same pass. It fails when a later listener of the
  pass unsubscribes it before its turn: function 0 subscribes function 2, function 1
  unsubscribes it, and function 2 is not invoked.
\<close>

theorem listener_added_in_pass_removed_before_its_turn:
  "dispatch 5 B_live USER_CREATED payload7 (batch USER_CREATED [Fn 0, Fn 1] init) =
   Some (Returned \<lparr>stack = [(USER_CREATED, 0)], sets = [[Some (Fn 0), Some (Fn 1), None]],
      closures = 0, calls = [(Fn 0, payload7), (Fn 1, payload7)]\<rparr>)"
  by (simp add: B_live_def bus_eval eval_nat_numeral)

text \<open>
  Claim C10, amended. The pass of \<open>dispatch(K, P)\<close> runs over the live set. Let the
  registry be well-formed, let the function \<open>A\<close> of the application be a member of the
  set of \<open>K\<close>, and let the rest of its body be apart from \<open>K\<close>. If \<open>A\<close> subscribes a
  listener \<open>N\<close> that is new to the set, and \<open>N\<close> and the other members are calm for
  \<open>K\<close>, the dispatch returns and has invoked \<open>N\<close> with \<open>P\<close> in the same pass, after
  all the members. If \<open>A\<close> unsubscribes a member \<open>V\<close> that comes after it, and the
  members other than \<open>V\<close> are calm for \<open>K\<close>, the dispatch returns and the pass has
  called the members without \<open>V\<close>; \<open>V\<close> is not invoked, unless a closure of \<open>once\<close>
  around it is in the set.
\<close>

theorem dispatch_iterates_live_set:
  "wf_bus s \<and> members K s = ms1 @ Fn a # ms2 \<and>
   list_all (apart K) as \<and> list_all (apart K) bs \<longrightarrow>
     (B a P = as @ Subscribe K N # bs \<and> N \<notin> set (members K s) \<and>
      list_all (calm B K P) (ms1 @ ms2 @ [N]) \<longrightarrow>
        (\<exists>N0 s'. (\<forall>n\<ge>N0. dispatch n B K P s = Some (Returned s')) \<and>
           calls s' = calls s @ concat (map (trace P) ms1) @ [(Fn a, P)] @
                      concat (map (trace P) ms2) @ trace P N)) \<and>
     (B a P = as @ Unsubscribe K V # bs \<and> V \<in> set ms2 \<and>
      list_all (calm B K P) (ms1 @ removeAll V ms2) \<longrightarrow>
        (\<exists>N0 s'. (\<forall>n\<ge>N0. dispatch n B K P s = Some (Returned s')) \<and>
           calls s' = calls s @ concat (map (trace P) ms1) @ [(Fn a, P)] @
                      concat (map (trace P) (removeAll V ms2)) \<and>
           (V \<notin> set (concat (map callee (ms1 @ ms2))) \<longrightarrow>
              (\<forall>P'. (V, P') \<notin> set (drop (length (calls s)) (calls s'))))))"
proof (intro impI conjI)
  assume a: "wf_bus s \<and> members K s = ms1 @ Fn a # ms2 \<and>
     list_all (apart K) as \<and> list_all (apart K) bs"
    and b: "B a P = as @ Subscribe K N # bs \<and> N \<notin> set (members K s) \<and>
      list_all (calm B K P) (ms1 @ ms2 @ [N])"
  from a b show "\<exists>N0 s'. (\<forall>n\<ge>N0. dispatch n B K P s = Some (Returned s')) \<and>
           calls s' = calls s @ concat (map (trace P) ms1) @ [(Fn a, P)] @
                      concat (map (trace P) ms2) @ trace P N"
    by (intro pass_reaches_added_listener [of s K ms1 a ms2 B P as N bs]) simp_all
next
  assume a: "wf_bus s \<and> members K s = ms1 @ Fn a # ms2 \<and>
     list_all (apart K) as \<and> list_all (apart K) bs"
    and b: "B a P = as @ Unsubscribe K V # bs \<and> V \<in> set ms2 \<and>
      list_all (calm B K P) (ms1 @ removeAll V ms2)"
  from a have d: "distinct (ms1 @ Fn a # ms2)"
    using wf_distinct_entries [of s K] by (simp add: members_def)
  from a b have "\<exists>N0 s'. (\<forall>n\<ge>N0. dispatch n B K P s = Some (Returned s')) \<and>
           calls s' = calls s @ concat (map (trace P) ms1) @ [(Fn a, P)] @
                      concat (map (trace P) (removeAll V ms2))"
    by (intro pass_skips_removed_listener [of s K ms1 a ms2 B P as V bs]) simp_all
  then obtain N0 s' where N0: "\<forall>n\<ge>N0. dispatch n B K P s = Some (Returned s')"
    and c: "calls s' = calls s @ concat (map (trace P) ms1) @ [(Fn a, P)] @
                      concat (map (trace P) (removeAll V ms2))"
    by blast
  have v: "V \<notin> set (concat (map callee (ms1 @ ms2))) \<longrightarrow>
              (\<forall>P'. (V, P') \<notin> set (drop (length (calls s)) (calls s')))"
  proof (intro impI allI)
    fix P' assume nc: "V \<notin> set (concat (map callee (ms1 @ ms2)))"
    from b d have v1: "V \<notin> set ms1" and va: "V \<noteq> Fn a" by auto
    from b have q1: "list_all (calm B K P) ms1" and q2: "list_all (calm B K P) (removeAll V ms2)"
      by simp_all
    have n1: "(V, P') \<notin> set (concat (map (trace P) ms1))"
      using q1 v1 nc by (intro not_in_traces [of B K P]) auto
    have n2: "(V, P') \<notin> set (concat (map (trace P) (removeAll V ms2)))"
      using q2 nc by (intro not_in_traces [of B K P]) auto
    show "(V, P') \<notin> set (drop (length (calls s)) (calls s'))"
      using n1 n2 va unfolding c by simp
  qed
  from N0 c v show "\<exists>N0 s'. (\<forall>n\<ge>N0. dispatch n B K P s = Some (Returned s')) \<and>
           calls s' = calls s @ concat (map (trace P) ms1) @ [(Fn a, P)] @
                      concat (map (trace P) (removeAll V ms2)) \<and>
           (V \<notin> set (concat (map callee (ms1 @ ms2))) \<longrightarrow>
              (\<forall>P'. (V, P') \<notin> set (drop (length (calls s)) (calls s'))))"
    by blast
qed

theorem dispatch_iterates_live_set_witness:
  "wf_bus (batch USER_CREATED [Fn 1, Fn 0, Fn 2] (init :: (string \<times> int) list EventBus)) \<and>
   members USER_CREATED (batch USER_CREATED [Fn 1, Fn 0, Fn 2] (init :: (string \<times> int) list EventBus))
     = [Fn 1, Fn 0, Fn 2] \<and>
   B_sub 0 payload7 = [Subscribe USER_CREATED (Fn 3)] \<and>
   (\<exists>N0 s'. (\<forall>n\<ge>N0. dispatch n B_sub USER_CREATED payload7
                  (batch USER_CREATED [Fn 1, Fn 0, Fn 2] init) = Some (Returned s')) \<and>
      calls s' = [(Fn 1, payload7), (Fn 0, payload7), (Fn 2, payload7), (Fn 3, payload7)]) \<and>
   members USER_CREATED (batch USER_CREATED [Fn 0, Fn 1, Fn 2] (init :: (string \<times> int) list EventBus))
     = [Fn 0, Fn 1, Fn 2] \<and>
   B_unsub 0 payload7 = [Unsubscribe USER_CREATED (Fn 1)] \<and>
   (\<exists>N0 s'. (\<forall>n\<ge>N0. dispatch n B_unsub USER_CREATED payload7
                  (batch USER_CREATED [Fn 0, Fn 1, Fn 2] init) = Some (Returned s')) \<and>
      calls s' = [(Fn 0, payload7), (Fn 2, payload7)] \<and>
      (\<forall>P'. (Fn 1, P') \<notin> set (calls s')))"
proof -
  let ?s = "batch USER_CREATED [Fn 1, Fn 0, Fn 2] (init :: (string \<times> int) list EventBus)"
  let ?t = "batch USER_CREATED [Fn 0, Fn 1, Fn 2] (init :: (string \<times> int) list EventBus)"
  have s: "?s = \<lparr>stack = [(USER_CREATED, 0)],
      sets = [[Some (Fn 1), Some (Fn 0), Some (Fn 2)]], closures = 0, calls = []\<rparr>"
    by (simp add: bus_eval)
  have t: "?t = \<lparr>stack = [(USER_CREATED, 0)],
      sets = [[Some (Fn 0), Some (Fn 1), Some (Fn 2)]], closures = 0, calls = []\<rparr>"
    by (simp add: bus_eval)
  have ws: "wf_bus ?s" unfolding s by (simp add: wf_bus_def)
  have wt: "wf_bus ?t" unfolding t by (simp add: wf_bus_def)
  have cs: "calls ?s = []" unfolding s by simp
  have ct: "calls ?t = []" unfolding t by simp
  have ms: "members USER_CREATED ?s = [Fn 1, Fn 0, Fn 2]"
    unfolding s by (simp add: members_def entries_def set_data_def)
  have mt: "members USER_CREATED ?t = [Fn 0, Fn 1, Fn 2]"
    unfolding t by (simp add: members_def entries_def set_data_def)
  have b1: "B_sub 0 payload7 = [Subscribe USER_CREATED (Fn 3)]" by (simp add: B_sub_def)
  have b2: "B_unsub 0 payload7 = [Unsubscribe USER_CREATED (Fn 1)]" by (simp add: B_unsub_def)
  have h1: "wf_bus ?s \<and> members USER_CREATED ?s = [Fn 1] @ Fn 0 # [Fn 2] \<and>
     list_all (apart USER_CREATED) ([] :: (string \<times> int) list action list) \<and>
     list_all (apart USER_CREATED) ([] :: (string \<times> int) list action list)"
    using ws ms by simp
  have g1: "B_sub 0 payload7 = [] @ Subscribe USER_CREATED (Fn 3) # [] \<and>
      Fn 3 \<notin> set (members USER_CREATED ?s) \<and>
      list_all (calm B_sub USER_CREATED payload7) ([Fn 1] @ [Fn 2] @ [Fn 3])"
    unfolding ms by (simp add: B_sub_def)
  note T1 = dispatch_iterates_live_set [of ?s USER_CREATED "[Fn 1]" 0 "[Fn 2]" "[]" "[]"
      B_sub payload7 "Fn 3" "Fn 1", THEN mp, OF h1, THEN conjunct1, THEN mp, OF g1]
  from T1 have 1: "\<exists>N0 s'. (\<forall>n\<ge>N0. dispatch n B_sub USER_CREATED payload7 ?s = Some (Returned s')) \<and>
      calls s' = [(Fn 1, payload7), (Fn 0, payload7), (Fn 2, payload7), (Fn 3, payload7)]"
    unfolding cs by simp
  have h2: "wf_bus ?t \<and> members USER_CREATED ?t = [] @ Fn 0 # [Fn 1, Fn 2] \<and>
     list_all (apart USER_CREATED) ([] :: (string \<times> int) list action list) \<and>
     list_all (apart USER_CREATED) ([] :: (string \<times> int) list action list)"
    using wt mt by simp
  have g2: "B_unsub 0 payload7 = [] @ Unsubscribe USER_CREATED (Fn 1) # [] \<and>
      Fn 1 \<in> set [Fn 1, Fn 2] \<and>
      list_all (calm B_unsub USER_CREATED payload7) ([] @ removeAll (Fn 1) [Fn 1, Fn 2])"
    by (simp add: B_unsub_def)
  note T2 = dispatch_iterates_live_set [of ?t USER_CREATED "[]" 0 "[Fn 1, Fn 2]" "[]" "[]"
      B_unsub payload7 "Fn 3" "Fn 1", THEN mp, OF h2, THEN conjunct2, THEN mp, OF g2]
  from T2 have 2: "\<exists>N0 s'. (\<forall>n\<ge>N0. dispatch n B_unsub USER_CREATED payload7 ?t = Some (Returned s')) \<and>
      calls s' = [(Fn 0, payload7), (Fn 2, payload7)] \<and>
      (\<forall>P'. (Fn 1, P') \<notin> set (calls s'))"
    unfolding ct by simp
  show ?thesis by (intro conjI ws ms b1 1 mt b2 2)
qed

end
